theory Spec2Isabelle
  imports Complex_Main "HOL-Library.Product_Lexorder"
begin

section \<open>Strings\<close>

text \<open>
  A JavaScript string is modelled as a \<^typ>\<open>string\<close>, each \<^typ>\<open>char\<close> read as one
  code unit in the range U+0000..U+00FF. In that range \<open>String.prototype.trim\<close> and the
  regular-expression class \<open>\s\<close> remove or match exactly TAB, LF, VT, FF, CR, SPACE and
  NBSP, \<open>\d\<close> matches the ten ASCII digits, and \<open>toLowerCase\<close> moves \<open>A\<close>..\<open>Z\<close> and the
  Latin-1 capitals U+00C0..U+00DE (without U+00D7) up by 32.
\<close>

definition is_space :: "char \<Rightarrow> bool" where
  "is_space c = (of_char c \<in> {9, 10, 11, 12, 13, 32, 160 :: nat})"

definition is_digit :: "char \<Rightarrow> bool" where
  "is_digit c = (48 \<le> (of_char c :: nat) \<and> (of_char c :: nat) \<le> 57)"

definition lower_char :: "char \<Rightarrow> char" where
  "lower_char c =
     (let n = (of_char c :: nat)
      in if (65 \<le> n \<and> n \<le> 90) \<or> (192 \<le> n \<and> n \<le> 222 \<and> n \<noteq> 215)
         then char_of (n + 32) else c)"

definition toLowerCase :: "string \<Rightarrow> string" where
  "toLowerCase s = map lower_char s"

definition trim :: "string \<Rightarrow> string" where
  "trim s = rev (dropWhile is_space (rev (dropWhile is_space s)))"

section \<open>Data model\<close>

text \<open>
  \<open>CsvRow\<close>, \<open>DataPoint = CsvRow & {...}\<close> and \<open>TimelinePoint = DataPoint & {...}\<close> of the
  source are intersection types, modelled as a record and two extensions of it. The fields
  \<open>map\<close> and \<open>split\<close> are named \<open>map_name\<close> and \<open>split_time\<close>.

  \<open>dateValue\<close> is the time value that \<open>Date.parse\<close> returns, an integer number of
  milliseconds. \<open>recordSeconds\<close> is a JavaScript number, a finite double, modelled as the
  real number it denotes; comparisons of doubles are the comparisons of these reals.
\<close>

record CsvRow =
  date :: string
  record_time :: string
  player :: string
  map_name :: string
  record_type :: string
  segment :: string
  evidence :: string
  evidence_source :: string
  run_time :: string
  split_time :: string
  improvement :: string
  demo_id :: string
  steam_id64 :: string
  steam_id :: string
  steam_candidates :: string

record DataPoint = CsvRow +
  rowIndex :: nat
  dateValue :: int
  recordSeconds :: real

record TimelinePoint = DataPoint +
  wiped :: bool
  wipedBoundary :: bool

section \<open>Durations\<close>

text \<open>
  \<open>value.split(':')\<close>: the pieces of a string between the separators; the result is never
  empty.
\<close>

fun split_on :: "char \<Rightarrow> string \<Rightarrow> string list" where
  "split_on d [] = [[]]"
| "split_on d (c # cs) =
     (if c = d then [] # split_on d cs
      else (case split_on d cs of
              [] \<Rightarrow> [[c]]
            | p # ps \<Rightarrow> (c # p) # ps))"

text \<open>
  \<open>parseTimeToSeconds\<close>. The built-ins \<open>Number.parseFloat\<close> and \<open>Number.parseInt(_, 10)\<close>
  are parameters \<open>pf\<close> and \<open>pn\<close>; \<open>None\<close> stands for \<open>NaN\<close> in their results and for
  \<open>null\<close> in the result of the function.
\<close>

definition parseTimeToSeconds ::
  "(string \<Rightarrow> real option) \<Rightarrow> (string \<Rightarrow> int option) \<Rightarrow> string \<Rightarrow> real option" where
  "parseTimeToSeconds pf pn v =
     (if v = [] then None
      else let parts = split_on (CHR '':'') v
           in if length parts < 2 \<or> length parts > 3 then None
              else let seconds = pf (parts ! (length parts - 1));
                       minutes = pn (parts ! (length parts - 2));
                       hours = (if length parts = 3 then pn (parts ! 0) else Some 0)
                   in (case (seconds, minutes, hours) of
                         (Some s, Some m, Some h) \<Rightarrow> Some (real_of_int h * 3600 + real_of_int m * 60 + s)
                       | _ \<Rightarrow> None))"

section \<open>Timeline reconstruction\<close>

text \<open>
  The body of the \<open>timeline\<close> memo of \<open>App\<close>. \<open>Date.parse\<close> is the parameter \<open>dp\<close>, with
  \<open>None\<close> for \<open>NaN\<close>; the guard \<open>!dateValue\<close> holds for \<open>NaN\<close> and for \<open>0\<close>.
\<close>

definition to_point ::
  "(string \<Rightarrow> int option) \<Rightarrow> (string \<Rightarrow> real option) \<Rightarrow> (string \<Rightarrow> int option) \<Rightarrow>
   nat \<times> CsvRow \<Rightarrow> DataPoint option" where
  "to_point dp pf pn ir =
     (case ir of (i, row) \<Rightarrow>
        (case (dp (date row), parseTimeToSeconds pf pn (record_time row)) of
           (Some dv, Some rs) \<Rightarrow>
             if dv = 0 then None
             else Some (CsvRow.extend row
                          \<lparr>rowIndex = i, dateValue = dv, recordSeconds = rs\<rparr>)
         | _ \<Rightarrow> None))"

definition points_of ::
  "(string \<Rightarrow> int option) \<Rightarrow> (string \<Rightarrow> real option) \<Rightarrow> (string \<Rightarrow> int option) \<Rightarrow>
   CsvRow list \<Rightarrow> DataPoint list" where
  "points_of dp pf pn filtered = List.map_filter (to_point dp pf pn) (enumerate 0 filtered)"

text \<open>
  \<open>points.sort((a, b) => a.dateValue - b.dateValue || a.rowIndex - b.rowIndex)\<close>: the
  comparator is the lexicographic order of the pair \<open>(dateValue, rowIndex)\<close>.
\<close>

definition sort_key_of :: "'a DataPoint_scheme \<Rightarrow> int \<times> nat" where
  "sort_key_of p = (dateValue p, rowIndex p)"

definition sort_points :: "DataPoint list \<Rightarrow> DataPoint list" where
  "sort_points ps = sort_key sort_key_of ps"

definition epsilon :: real where
  "epsilon = 1 / 10000"

definition isWipeBoundaryTrigger :: "'a CsvRow_scheme \<Rightarrow> bool" where
  "isWipeBoundaryTrigger row =
     (let ev = toLowerCase (trim (evidence row));
          source = toLowerCase (trim (evidence_source row))
      in ev = ''record'' \<or> (ev = ''announcement'' \<and> source = ''irc_set''))"

definition emit :: "DataPoint \<Rightarrow> bool \<Rightarrow> TimelinePoint" where
  "emit point b = DataPoint.extend point \<lparr>wiped = False, wipedBoundary = b\<rparr>"

text \<open>
  One iteration of the forward loop on the state \<open>(current, timeline)\<close>; \<open>push\<close> appends.
  The source compares with \<open>current - epsilon\<close> and \<open>current + epsilon\<close>, both computed in
  double precision and so rounded: the parameters \<open>sub\<close> and \<open>add\<close> are these two
  operations, \<open>sub c\<close> the double that \<open>c - 0.0001\<close> evaluates to and \<open>add c\<close> the double
  that \<open>c + 0.0001\<close> evaluates to.
\<close>

definition forward_step_fp ::
  "(real \<Rightarrow> real) \<Rightarrow> (real \<Rightarrow> real) \<Rightarrow> DataPoint \<Rightarrow>
   real option \<times> TimelinePoint list \<Rightarrow> real option \<times> TimelinePoint list" where
  "forward_step_fp sub add point st =
     (case st of (current, acc) \<Rightarrow>
        (case current of
           None \<Rightarrow> (Some (recordSeconds point), acc @ [emit point False])
         | Some c \<Rightarrow>
             if recordSeconds point < sub c
             then (Some (recordSeconds point), acc @ [emit point False])
             else if isWipeBoundaryTrigger point \<and> recordSeconds point > add c
             then (Some (recordSeconds point), acc @ [emit point True])
             else (Some c, acc)))"

definition forward_pass_fp ::
  "(real \<Rightarrow> real) \<Rightarrow> (real \<Rightarrow> real) \<Rightarrow> DataPoint list \<Rightarrow> TimelinePoint list" where
  "forward_pass_fp sub add ps = snd (fold (forward_step_fp sub add) ps (None, []))"

text \<open>
  One iteration of the backward loop, which runs from the last index down to \<open>0\<close>: the
  state is \<open>maxWipeBoundary\<close> and the part of the array already rewritten. \<open>sub\<close> is the
  rounded subtraction in \<open>maxWipeBoundary - epsilon\<close>; \<open>Math.max\<close> does not round.
\<close>

definition backward_step_fp ::
  "(real \<Rightarrow> real) \<Rightarrow> TimelinePoint \<Rightarrow>
   real option \<times> TimelinePoint list \<Rightarrow> real option \<times> TimelinePoint list" where
  "backward_step_fp sub point st =
     (case st of (maxWipeBoundary, rest) \<Rightarrow>
        (let m = (if wipedBoundary point
                  then (case maxWipeBoundary of
                          None \<Rightarrow> Some (recordSeconds point)
                        | Some x \<Rightarrow> Some (max x (recordSeconds point)))
                  else maxWipeBoundary);
             w = (case m of None \<Rightarrow> False | Some x \<Rightarrow> recordSeconds point < sub x)
         in (m, point\<lparr>wiped := w\<rparr> # rest)))"

definition backward_pass_fp :: "(real \<Rightarrow> real) \<Rightarrow> TimelinePoint list \<Rightarrow> TimelinePoint list" where
  "backward_pass_fp sub emitted = snd (foldr (backward_step_fp sub) emitted (None, []))"

definition timeline_fp ::
  "(string \<Rightarrow> int option) \<Rightarrow> (string \<Rightarrow> real option) \<Rightarrow> (string \<Rightarrow> int option) \<Rightarrow>
   (real \<Rightarrow> real) \<Rightarrow> (real \<Rightarrow> real) \<Rightarrow> CsvRow list \<Rightarrow> TimelinePoint list" where
  "timeline_fp dp pf pn sub add filtered =
     backward_pass_fp sub (forward_pass_fp sub add (sort_points (points_of dp pf pn filtered)))"

text \<open>
  The same loops with the two operations computed exactly, \<open>epsilon\<close> being \<open>1 / 10000\<close>.
  This idealisation serves for the properties of the reconstruction that hold however the
  two operations round.
\<close>

definition forward_step ::
  "DataPoint \<Rightarrow> real option \<times> TimelinePoint list \<Rightarrow> real option \<times> TimelinePoint list" where
  "forward_step = forward_step_fp (\<lambda>c. c - epsilon) (\<lambda>c. c + epsilon)"

definition forward_pass :: "DataPoint list \<Rightarrow> TimelinePoint list" where
  "forward_pass ps = snd (fold forward_step ps (None, []))"

definition backward_step ::
  "TimelinePoint \<Rightarrow> real option \<times> TimelinePoint list \<Rightarrow> real option \<times> TimelinePoint list" where
  "backward_step = backward_step_fp (\<lambda>c. c - epsilon)"

definition backward_pass :: "TimelinePoint list \<Rightarrow> TimelinePoint list" where
  "backward_pass emitted = snd (foldr backward_step emitted (None, []))"

definition timeline ::
  "(string \<Rightarrow> int option) \<Rightarrow> (string \<Rightarrow> real option) \<Rightarrow> (string \<Rightarrow> int option) \<Rightarrow>
   CsvRow list \<Rightarrow> TimelinePoint list" where
  "timeline dp pf pn filtered = backward_pass (forward_pass (sort_points (points_of dp pf pn filtered)))"

text \<open>
  Feeding timeline points back as rows keeps their row fields (\<open>CsvRow.truncate\<close>); the
  \<open>map\<close> callback of the reconstructor then overwrites \<open>rowIndex\<close> with the position in
  the new input, which is what \<open>renumber\<close> does to a list of points.
\<close>

definition renumber :: "'a DataPoint_scheme list \<Rightarrow> 'a DataPoint_scheme list" where
  "renumber ts = map (\<lambda>(i, t). t\<lparr>rowIndex := i\<rparr>) (enumerate 0 ts)"

section \<open>CSV decoder\<close>

text \<open>\<open>row.some((cell) => cell.trim().length > 0)\<close>, and the conditional \<open>rows.push(row)\<close>.\<close>

definition has_content :: "string list \<Rightarrow> bool" where
  "has_content cells = list_ex (\<lambda>cell. length (trim cell) > 0) cells"

definition push_row :: "string list list \<Rightarrow> string list \<Rightarrow> string list list" where
  "push_row acc cells = (if has_content cells then acc @ [cells] else acc)"

text \<open>
  The loop of \<open>parseCsvRows\<close> over the characters of the text, on the state
  \<open>(rows, row, field, inQuotes)\<close> (here \<open>acc\<close>, \<open>cells\<close>, \<open>field\<close>, \<open>inQuotes\<close>). The look-ahead
  \<open>text[i + 1] === '"'\<close> is the case distinction on the rest of the input: past the end it
  reads \<open>undefined\<close>, which is not a quote. The function has no failing branch, as the
  source has no \<open>throw\<close> and no read that can fail.
\<close>

fun scan ::
  "string list list \<Rightarrow> string list \<Rightarrow> string \<Rightarrow> bool \<Rightarrow> string \<Rightarrow>
   string list list \<times> string list \<times> string \<times> bool" where
  "scan acc cells field inQuotes [] = (acc, cells, field, inQuotes)"
| "scan acc cells field True (ch # rest) =
     (if ch = CHR 0x22
      then (case rest of
              [] \<Rightarrow> scan acc cells field False rest
            | nxt # rest' \<Rightarrow>
                if nxt = CHR 0x22 then scan acc cells (field @ [CHR 0x22]) True rest'
                else scan acc cells field False rest)
      else scan acc cells (field @ [ch]) True rest)"
| "scan acc cells field False (ch # rest) =
     (if ch = CHR 0x22 then scan acc cells field True rest
      else if ch = CHR '','' then scan acc (cells @ [field]) [] False rest
      else if ch = CHR 0x0D then scan acc cells field False rest
      else if ch = CHR 0x0A then scan (push_row acc (cells @ [field])) [] [] False rest
      else scan acc cells (field @ [ch]) False rest)"

text \<open>
  After the loop: \<open>inQuotes\<close> is reset (it is not read again) and a pending record is
  pushed.
\<close>

definition finish :: "string list list \<times> string list \<times> string \<times> bool \<Rightarrow> string list list" where
  "finish st =
     (case st of (acc, cells, field, inQuotes) \<Rightarrow>
        if length field > 0 \<or> length cells > 0 then push_row acc (cells @ [field]) else acc)"

definition parseCsvRows :: "string \<Rightarrow> string list list" where
  "parseCsvRows text = finish (scan [] [] [] False text)"

text \<open>
  \<open>parseCsv\<close>: each record after the first becomes an object keyed by the header cells,
  \<open>cells[index] ?? ''\<close> being the empty string past the end of the record. The object is
  the map of its own properties from header to cell; an assignment of a string to the key
  \<open>__proto__\<close> of a plain object stores no property. The cast \<open>as CsvRow\<close> does nothing at
  run time.
\<close>

definition row_of_cells :: "string list \<Rightarrow> string list \<Rightarrow> (string \<rightharpoonup> string)" where
  "row_of_cells headers cells =
     fold (\<lambda>(index, header) r.
             if header = ''__proto__'' then r
             else r(header \<mapsto> (if index < length cells then cells ! index else [])))
       (enumerate 0 headers) Map.empty"

definition parseCsv :: "string \<Rightarrow> (string \<rightharpoonup> string) list" where
  "parseCsv text =
     (let rs = parseCsvRows text
      in if length rs \<le> 1 then []
         else map (row_of_cells (rs ! 0)) (drop 1 rs))"

text \<open>The value of \<open>inQuotes\<close> when the loop ends: the text has an unterminated quote.\<close>

definition ends_in_quotes :: "string \<Rightarrow> bool" where
  "ends_in_quotes text = snd (snd (snd (scan [] [] [] False text)))"

section \<open>Identity resolver\<close>

text \<open>
  Decimal digit strings. \<open>nat_of_digits\<close> is the value of \<open>BigInt(v)\<close> on a string \<open>v\<close> of
  ASCII digits and \<open>decimal\<close> is \<open>toString()\<close> of a non-negative \<open>BigInt\<close>; both are exact.
\<close>

definition digit_value :: "char \<Rightarrow> nat" where
  "digit_value c = of_char c - 48"

definition nat_of_digits :: "string \<Rightarrow> nat" where
  "nat_of_digits s = foldl (\<lambda>n c. 10 * n + digit_value c) 0 s"

fun decimal :: "nat \<Rightarrow> string" where
  "decimal n =
     (if n < 10 then [''0123456789'' ! n]
      else decimal (n div 10) @ [''0123456789'' ! (n mod 10)])"

definition all_digits :: "string \<Rightarrow> bool" where
  "all_digits s = (s \<noteq> [] \<and> list_all is_digit s)"

definition STEAM_ID64_BASE :: nat where
  "STEAM_ID64_BASE = 76561197960265728"

text \<open>
  \<open>normalizeSteamId64\<close>: \<open>None\<close> as argument is \<open>undefined\<close>, \<open>None\<close> as result is
  \<open>null\<close>; the regular expression \<open>/^\d{16,17}$/\<close> accepts 16 or 17 ASCII digits.
\<close>

definition normalizeSteamId64 :: "string option \<Rightarrow> string option" where
  "normalizeSteamId64 v =
     (case v of
        None \<Rightarrow> None
      | Some s \<Rightarrow>
          if s = [] then None
          else let trimmed = trim s
               in if trimmed = [] then None
                  else if list_all is_digit trimmed \<and> 16 \<le> length trimmed \<and> length trimmed \<le> 17
                  then Some trimmed
                  else None)"

text \<open>
  \<open>startsWith\<close>, \<open>endsWith\<close> and \<open>lastIndexOf\<close> of \<open>String.prototype\<close>; \<open>lastIndexOf\<close> is
  \<open>-1\<close> when the character does not occur.
\<close>

definition startsWith :: "string \<Rightarrow> string \<Rightarrow> bool" where
  "startsWith s p = (take (length p) s = p)"

definition endsWith :: "string \<Rightarrow> string \<Rightarrow> bool" where
  "endsWith s p = (length p \<le> length s \<and> drop (length s - length p) s = p)"

definition lastIndexOf :: "string \<Rightarrow> char \<Rightarrow> int" where
  "lastIndexOf s c =
     (case dropWhile (\<lambda>x. x \<noteq> c) (rev s) of
        [] \<Rightarrow> - 1
      | _ # front \<Rightarrow> int (length front))"

text \<open>
  The two \<open>if\<close> blocks of \<open>parseSteamId64\<close> for the forms \<open>[U:X:Y]\<close> and \<open>STEAM_X:Y:Z\<close>;
  \<open>None\<close> means that the block does not return and control falls through.
  \<open>trimmed.slice(lastColon + 1, -1)\<close> is the text between the last colon and the last
  character, \<open>/^\d+$/\<close> is \<open>all_digits\<close>, and \<open>'STEAM_'.length\<close> is 6.
\<close>

definition bracket_form :: "string \<Rightarrow> string option" where
  "bracket_form trimmed =
     (if startsWith trimmed ''[U:'' \<and> endsWith trimmed '']''
      then let lastColon = lastIndexOf trimmed (CHR '':'')
           in if lastColon > 0
              then let v = take (length trimmed - 1 - nat (lastColon + 1))
                             (drop (nat (lastColon + 1)) trimmed)
                   in if all_digits v
                      then Some (decimal (STEAM_ID64_BASE + nat_of_digits v))
                      else None
              else None
      else None)"

definition legacy_form :: "string \<Rightarrow> string option" where
  "legacy_form trimmed =
     (if startsWith trimmed ''STEAM_''
      then let parts = split_on (CHR '':'') (drop 6 trimmed)
           in if length parts = 3 \<and> all_digits (parts ! 1) \<and> all_digits (parts ! 2)
              then let y = nat_of_digits (parts ! 1);
                       z = nat_of_digits (parts ! 2)
                   in Some (decimal (STEAM_ID64_BASE + z * 2 + y))
              else None
      else None)"

definition parseSteamId64 :: "string option \<Rightarrow> string option" where
  "parseSteamId64 steamId =
     (case steamId of
        None \<Rightarrow> None
      | Some s \<Rightarrow>
          if s = [] then None
          else let trimmed = trim s
               in if trimmed = [] then None
                  else (case normalizeSteamId64 (Some trimmed) of
                          Some direct \<Rightarrow> Some direct
                        | None \<Rightarrow>
                            (case bracket_form trimmed of
                               Some r \<Rightarrow> Some r
                             | None \<Rightarrow> legacy_form trimmed)))"

declare decimal.simps [simp del]

section \<open>Segment classifier\<close>

text \<open>
  \<open>ZoneInfo\<close>; its field \<open>id\<close> is named \<open>zone_id\<close>. \<open>order\<close> is a JavaScript number, of
  a type \<open>'n\<close> that is left open.
\<close>

datatype zone_kind = Bonus | Course | Segment

record 'n ZoneInfo =
  zone_id :: string
  label :: string
  kind :: zone_kind
  order :: 'n

text \<open>
  The regular expressions of \<open>getZoneInfo\<close>, each as a function that returns the captured
  groups, or \<open>None\<close> when \<open>match\<close> returns \<open>null\<close>. With the flag \<open>i\<close> a letter of the
  pattern matches both of its cases. \<open>.\<close> matches every character but a line terminator
  (LF and CR in the range of the model).

  \<open>/^Bonus\s+(\d+)/i\<close> and \<open>/^Course\s+(\d+)/i\<close>: the word, at least one white-space
  character, and the longest run of digits, which must not be empty.

  \<open>/^C(\d+)\s*-\s*(.+)$/i\<close>: the second \<open>\s*\<close> first takes the whole white-space run
  after the hyphen and the group takes the rest, which must be non-empty and free of line
  terminators; if nothing is left after the white space, backtracking gives the last
  white-space character to the group. (The input of \<open>getZoneInfo\<close> is trimmed, so this
  last case does not arise there.)

  \<open>/^C(\d+)/i\<close>: the letter and the longest non-empty run of digits.
\<close>

definition is_line_terminator :: "char \<Rightarrow> bool" where
  "is_line_terminator c = (c = CHR 0x0A \<or> c = CHR 0x0D)"

definition match_word_number :: "string \<Rightarrow> string \<Rightarrow> string option" where
  "match_word_number word s =
     (if toLowerCase (take (length word) s) = word
      then let rest = drop (length word) s;
               after = dropWhile is_space rest;
               ds = takeWhile is_digit after
           in if length after < length rest \<and> ds \<noteq> [] then Some ds else None
      else None)"

definition match_segment :: "string \<Rightarrow> (string \<times> string) option" where
  "match_segment s =
     (case s of
        [] \<Rightarrow> None
      | c # r \<Rightarrow>
          if lower_char c = CHR ''c'' \<and> takeWhile is_digit r \<noteq> []
          then (case dropWhile is_space (dropWhile is_digit r) of
                  [] \<Rightarrow> None
                | h # r2 \<Rightarrow>
                    if h = CHR ''-''
                    then let ws = takeWhile is_space r2;
                             g = dropWhile is_space r2
                         in if g \<noteq> []
                            then (if list_ex is_line_terminator g then None
                                  else Some (takeWhile is_digit r, g))
                            else if ws \<noteq> [] \<and> \<not> is_line_terminator (last ws)
                            then Some (takeWhile is_digit r, [last ws])
                            else None
                    else None)
          else None)"

definition match_segment_index :: "string \<Rightarrow> string option" where
  "match_segment_index s =
     (case s of
        [] \<Rightarrow> None
      | c # r \<Rightarrow>
          if lower_char c = CHR ''c'' \<and> takeWhile is_digit r \<noteq> []
          then Some (takeWhile is_digit r) else None)"

text \<open>
  \<open>replace(/\s+First$/i, '')\<close>: if the string ends with the word preceded by white space,
  the word and the whole white-space run before it are removed (the leftmost match starts
  at the beginning of that run).
\<close>

definition remove_first_suffix :: "string \<Rightarrow> string" where
  "remove_first_suffix s =
     (let r = rev s
      in if toLowerCase (rev (take 5 r)) = ''first'' \<and>
            (case drop 5 r of [] \<Rightarrow> False | c # _ \<Rightarrow> is_space c)
         then rev (dropWhile is_space (drop 5 r))
         else s)"

definition sanitizeSegmentName :: "string \<Rightarrow> string" where
  "sanitizeSegmentName v = trim (remove_first_suffix (trim v))"

text \<open>
  \<open>getZoneInfo\<close>. \<open>Number.parseInt(digits, 10)\<close> returns a double, which is the integer
  itself only up to \<open>2 ^ 53\<close>, and the template literal prints a number as
  \<open>Number.prototype.toString\<close> does, in exponent notation from \<open>10 ^ 21\<close> on. Both are
  parameters: \<open>pint\<close> is \<open>parseInt\<close> on a string of digits and \<open>str\<close> is the text of a
  number in a template literal.
\<close>

definition getZoneInfo :: "(string \<Rightarrow> 'n) \<Rightarrow> ('n \<Rightarrow> string) \<Rightarrow> string \<Rightarrow> 'n ZoneInfo option" where
  "getZoneInfo pint str source =
     (if source = [] then None
      else let trimmed = trim source
           in if trimmed = [] then None
              else (case match_word_number ''bonus'' trimmed of
                 Some ds \<Rightarrow>
                   let n = pint ds
                   in Some \<lparr>zone_id = ''bonus-'' @ str n, label = ''Bonus '' @ str n,
                            kind = Bonus, order = n\<rparr>
               | None \<Rightarrow>
              (case match_word_number ''course'' trimmed of
                 Some ds \<Rightarrow>
                   let n = pint ds
                   in Some \<lparr>zone_id = ''course-'' @ str n, label = ''Course '' @ str n,
                            kind = Course, order = n\<rparr>
               | None \<Rightarrow>
              (case match_segment trimmed of
                 Some (ds, g) \<Rightarrow>
                   let n = pint ds;
                       name = sanitizeSegmentName g
                   in Some \<lparr>zone_id = ''segment-'' @ str n,
                            label = (if name \<noteq> [] then ''C'' @ str n @ '' - '' @ name
                                     else ''C'' @ str n),
                            kind = Segment, order = n\<rparr>
               | None \<Rightarrow>
              (case match_segment_index trimmed of
                 Some ds \<Rightarrow>
                   let n = pint ds
                   in Some \<lparr>zone_id = ''segment-'' @ str n, label = ''C'' @ str n,
                            kind = Segment, order = n\<rparr>
               | None \<Rightarrow> None)))))"

section \<open>Sample inputs\<close>

text \<open>
  Concrete inputs for the scenarios below. The three tables give the values of
  \<open>Date.parse\<close>, \<open>Number.parseFloat\<close> and \<open>Number.parseInt(_, 10)\<close> on the strings that
  occur in the sample rows (a date-only ISO string is parsed as midnight UTC); every other
  string is treated as unparseable.
\<close>

definition sample_row :: "string \<Rightarrow> string \<Rightarrow> string \<Rightarrow> string \<Rightarrow> CsvRow" where
  "sample_row d t e s =
     \<lparr>date = d, record_time = t, player = ''someone'', map_name = ''jump_beef'',
      record_type = ''wr'', segment = ''Map'', evidence = e, evidence_source = s,
      run_time = [], split_time = [], improvement = [], demo_id = [],
      steam_id64 = [], steam_id = [], steam_candidates = []\<rparr>"

definition sample_dates :: "string \<Rightarrow> int option" where
  "sample_dates = map_of
     [(''2012-01-01'', 1325376000000), (''2012-01-02'', 1325462400000),
      (''2012-01-03'', 1325548800000), (''2012-01-04'', 1325635200000),
      (''1970-01-01T00:00:00Z'', 0)]"

definition sample_float :: "string \<Rightarrow> real option" where
  "sample_float = map_of
     [(''00.00'', 0), (''05.00'', 5), (''10.00'', 10), (''40.00'', 40), (''50.00'', 50), (''55.00'', 55)]"

definition sample_int :: "string \<Rightarrow> int option" where
  "sample_int = map_of [(''00'', 0), (''01'', 1)]"

definition scenario_rows :: "CsvRow list" where
  "scenario_rows =
     [sample_row ''2012-01-01'' ''01:00.00'' ''record'' [],
      sample_row ''2012-01-02'' ''00:55.00'' ''record'' [],
      sample_row ''2012-01-03'' ''01:05.00'' ''announcement'' ''irc_set'']"

definition two_boundaries_rows :: "CsvRow list" where
  "two_boundaries_rows =
     [sample_row ''2012-01-01'' ''01:00.00'' ''record'' [],
      sample_row ''2012-01-02'' ''00:50.00'' ''record'' [],
      sample_row ''2012-01-03'' ''00:55.00'' ''record'' [],
      sample_row ''2012-01-04'' ''01:40.00'' ''record'' []]"

definition upper_case_source_rows :: "CsvRow list" where
  "upper_case_source_rows =
     [sample_row ''2012-01-01'' ''00:55.00'' ''record'' [],
      sample_row ''2012-01-02'' ''01:05.00'' ''announcement'' ''IRC_SET'']"

definition epoch_rows :: "CsvRow list" where
  "epoch_rows =
     [sample_row ''1970-01-01T00:00:00Z'' ''00:50.00'' ''record'' [],
      sample_row ''2012-01-02'' ''00:55.00'' ''record'' []]"

definition tie_rows :: "CsvRow list" where
  "tie_rows =
     [sample_row ''2012-01-02'' ''01:00.00'' ''record'' [],
      sample_row ''2012-01-01'' ''01:40.00'' ''record'' [],
      sample_row ''2012-01-02'' ''00:55.00'' ''command'' []]"

definition upper_case_source_points :: "DataPoint list" where
  "upper_case_source_points =
     sort_points (points_of sample_dates sample_float sample_int upper_case_source_rows)"

definition dropped_row_rows :: "CsvRow list" where
  "dropped_row_rows =
     [sample_row ''2012-01-01'' ''01:00.00'' ''record'' [],
      sample_row ''2012-01-02'' ''01:10.00'' ''command'' [],
      sample_row ''2012-01-03'' ''00:50.00'' ''record'' []]"

definition header_only :: string where
  "header_only = ''date,record_time,player'' @ [CHR 0x0D, CHR 0x0A]"

definition unterminated :: string where
  "unterminated = ''name,note'' @ [CHR 0x0A] @ ''x,'' @ [CHR 0x22] @ ''abc,'' @ [CHR 0x0A] @ ''d''"

text \<open>
  Inputs at the edge of the tolerance. \<open>d_51_9501\<close> and \<open>d_51_9502\<close> are the doubles that
  \<open>parseFloat\<close> returns on \<open>51.9501\<close> and \<open>51.9502\<close>; they differ by a little more than
  \<open>1 / 10000\<close>, and in double precision \<open>51.9502 - 0.0001\<close> evaluates to the first and
  \<open>51.9501 + 0.0001\<close> to the second. \<open>sample_sub\<close> and \<open>sample_add\<close> are exact away from
  these two values and agree with the double operations at them.
\<close>

definition d_51_9501 :: real where
  "d_51_9501 = 7311326593808125 / 140737488355328"

definition d_51_9502 :: real where
  "d_51_9502 = 7311340667556961 / 140737488355328"

definition sample_sub :: "real \<Rightarrow> real" where
  "sample_sub c = (if d_51_9501 + 1 / 10000 \<le> c \<and> c \<le> d_51_9502 then d_51_9501 else c - 1 / 10000)"

definition sample_add :: "real \<Rightarrow> real" where
  "sample_add c = (if d_51_9501 \<le> c \<and> c \<le> d_51_9502 - 1 / 10000 then d_51_9502 else c + 1 / 10000)"

definition sample_double :: "string \<Rightarrow> real option" where
  "sample_double = map_of [(''51.9501'', d_51_9501), (''51.9502'', d_51_9502), (''40.00'', 40)]"

definition near_tolerance_rows :: "CsvRow list" where
  "near_tolerance_rows =
     [sample_row ''2012-01-01'' ''00:51.9501'' ''record'' [],
      sample_row ''2012-01-02'' ''00:40.00'' ''record'' [],
      sample_row ''2012-01-03'' ''00:51.9502'' ''record'' []]"

definition near_tolerance_points :: "DataPoint list" where
  "near_tolerance_points =
     sort_points (points_of sample_dates sample_double sample_int
       [sample_row ''2012-01-01'' ''00:51.9501'' ''record'' [],
        sample_row ''2012-01-02'' ''00:51.9502'' ''record'' []])"

text \<open>
  \<open>parseInt\<close> and the text of a number, on the digit strings and integers of the samples.
\<close>

definition sample_parse_int :: "string \<Rightarrow> real" where
  "sample_parse_int ds = real (nat_of_digits ds)"

definition sample_number_text :: "real \<Rightarrow> string" where
  "sample_number_text x = decimal (nat \<lfloor>x\<rfloor>)"

text \<open>A text that ends inside a quoted field whose content is blank.\<close>

definition blank_partial :: string where
  "blank_partial = ''x'' @ [CHR 0x0A, CHR 0x22] @ '' ''"

section \<open>Auxiliary definitions for the proofs\<close>

text \<open>
  The points that the forward loop pushes from a given value of \<open>current\<close> on, as a
  recursion over the remaining input; \<open>fold_forward_step\<close> below relates it to the loop.
\<close>

primrec emitted_from :: "real option \<Rightarrow> DataPoint list \<Rightarrow> TimelinePoint list" where
  "emitted_from cur [] = []"
| "emitted_from cur (p # ps) =
     snd (forward_step p (cur, [])) @ emitted_from (fst (forward_step p (cur, []))) ps"

text \<open>A point carries the values that the parsers return on its own \<open>date\<close> and \<open>record_time\<close>.\<close>

definition well_parsed ::
  "(string \<Rightarrow> int option) \<Rightarrow> (string \<Rightarrow> real option) \<Rightarrow> (string \<Rightarrow> int option) \<Rightarrow>
   'a DataPoint_scheme \<Rightarrow> bool" where
  "well_parsed dp pf pn p =
     (dp (date p) = Some (dateValue p) \<and> dateValue p \<noteq> 0 \<and>
      parseTimeToSeconds pf pn (record_time p) = Some (recordSeconds p))"

section \<open>The loops with exact arithmetic\<close>

lemma forward_step_exact:
  "forward_step point st =
     (case st of (current, acc) \<Rightarrow>
        (case current of
           None \<Rightarrow> (Some (recordSeconds point), acc @ [emit point False])
         | Some c \<Rightarrow>
             if recordSeconds point < c - epsilon
             then (Some (recordSeconds point), acc @ [emit point False])
             else if isWipeBoundaryTrigger point \<and> recordSeconds point > c + epsilon
             then (Some (recordSeconds point), acc @ [emit point True])
             else (Some c, acc)))"
  by (simp add: forward_step_def forward_step_fp_def)

lemma backward_step_exact:
  "backward_step point st =
     (case st of (maxWipeBoundary, rest) \<Rightarrow>
        (let m = (if wipedBoundary point
                  then (case maxWipeBoundary of
                          None \<Rightarrow> Some (recordSeconds point)
                        | Some x \<Rightarrow> Some (max x (recordSeconds point)))
                  else maxWipeBoundary);
             w = (case m of None \<Rightarrow> False | Some x \<Rightarrow> recordSeconds point < x - epsilon)
         in (m, point\<lparr>wiped := w\<rparr> # rest)))"
  by (simp add: backward_step_def backward_step_fp_def)

lemma timeline_exact:
  "timeline dp pf pn filtered = timeline_fp dp pf pn (\<lambda>c. c - epsilon) (\<lambda>c. c + epsilon) filtered"
  by (simp add: timeline_def timeline_fp_def forward_pass_def forward_pass_fp_def
      backward_pass_def backward_pass_fp_def forward_step_def backward_step_def)

section \<open>Evaluation of the sample inputs\<close>

lemmas timeline_eval =
  timeline_def points_of_def to_point_def parseTimeToSeconds_def
  sample_dates_def sample_float_def sample_int_def sample_row_def
  sort_points_def sort_key_of_def forward_pass_def forward_step_exact
  backward_pass_def backward_step_exact emit_def isWipeBoundaryTrigger_def
  trim_def toLowerCase_def lower_char_def is_space_def epsilon_def
  CsvRow.defs DataPoint.defs enumerate_eq_zip char_of_def bit_Suc_0_iff

section \<open>The forward pass\<close>

lemma forward_step_acc:
  "forward_step p (cur, acc) = (fst (forward_step p (cur, [])), acc @ snd (forward_step p (cur, [])))"
  by (simp add: forward_step_exact split: option.splits)

lemma fold_forward_step:
  "snd (fold forward_step ps (cur, acc)) = acc @ emitted_from cur ps"
proof (induction ps arbitrary: cur acc)
  case Nil
  show ?case by simp
next
  case (Cons p ps)
  have "fold forward_step (p # ps) (cur, acc) =
        fold forward_step ps (fst (forward_step p (cur, [])), acc @ snd (forward_step p (cur, [])))"
    using forward_step_acc [of p cur acc] by simp
  then show ?case by (simp add: Cons.IH)
qed

lemma forward_pass_emitted: "forward_pass ps = emitted_from None ps"
  by (simp add: forward_pass_def fold_forward_step)

lemma sort_key_of_emit [simp]: "sort_key_of (emit p b) = sort_key_of p"
  by (simp add: sort_key_of_def emit_def DataPoint.defs)

lemma forward_step_cases:
  "(forward_step p (cur, []) = (cur, []) \<and> cur \<noteq> None) \<or>
   (\<exists>b. forward_step p (cur, []) = (Some (recordSeconds p), [emit p b]))"
  by (auto simp: forward_step_exact split: option.splits)

lemma keys_emitted_from:
  "set (map sort_key_of (emitted_from cur ps)) \<subseteq> set (map sort_key_of ps)"
proof (induction ps arbitrary: cur)
  case Nil
  show ?case by simp
next
  case (Cons p ps)
  from forward_step_cases [of p cur] show ?case
    using Cons.IH by (elim disjE exE conjE) (simp; blast)+
qed

section \<open>The backward pass\<close>

lemma epsilon_pos: "0 < epsilon"
  by (simp add: epsilon_def)

lemma backward_step_snd:
  "snd (backward_step p st) = p\<lparr>wiped := (case fst (backward_step p st) of None \<Rightarrow> False
       | Some x \<Rightarrow> recordSeconds p < x - epsilon)\<rparr> # snd st"
  by (cases st) (simp add: backward_step_exact Let_def)

lemma backward_step_fst:
  "fst (backward_step p st) =
     (if wipedBoundary p
      then (case fst st of None \<Rightarrow> Some (recordSeconds p) | Some x \<Rightarrow> Some (max x (recordSeconds p)))
      else fst st)"
  by (cases st) (simp add: backward_step_exact Let_def)

lemma backward_max_None:
  "(fst (foldr backward_step ts (None, [])) = None) = (\<forall>p \<in> set ts. \<not> wipedBoundary p)"
  by (induction ts) (auto simp: backward_step_fst split: option.splits)

lemma backward_max_Some:
  "fst (foldr backward_step ts (None, [])) = Some m \<Longrightarrow>
   (\<exists>p \<in> set ts. wipedBoundary p \<and> recordSeconds p = m) \<and>
   (\<forall>p \<in> set ts. wipedBoundary p \<longrightarrow> recordSeconds p \<le> m)"
proof (induction ts arbitrary: m)
  case Nil
  then show ?case by simp
next
  case (Cons p ps)
  show ?case
  proof (cases "fst (foldr backward_step ps (None, []))")
    case None
    then have "\<forall>q \<in> set ps. \<not> wipedBoundary q" by (simp add: backward_max_None)
    with Cons.prems None show ?thesis
      by (auto simp: backward_step_fst split: if_splits)
  next
    case (Some x)
    from Cons.IH [OF Some] Cons.prems Some show ?thesis
      by (auto simp: backward_step_fst max_def split: if_splits)
  qed
qed

lemma backward_pass_Cons:
  "backward_pass (p # ps) =
     p\<lparr>wiped := (\<exists>q \<in> set (p # ps). wipedBoundary q \<and> recordSeconds p < recordSeconds q - epsilon)\<rparr>
     # backward_pass ps"
proof (cases "fst (foldr backward_step (p # ps) (None, []))")
  case None
  then have "\<forall>q \<in> set (p # ps). \<not> wipedBoundary q" by (simp only: backward_max_None)
  with None show ?thesis
    by (simp add: backward_pass_def backward_step_snd)
next
  case (Some m)
  from backward_max_Some [OF Some]
  have "(recordSeconds p < m - epsilon) =
        (\<exists>q \<in> set (p # ps). wipedBoundary q \<and> recordSeconds p < recordSeconds q - epsilon)"
    by (smt (verit, best))
  with Some show ?thesis
    by (simp add: backward_pass_def backward_step_snd)
qed

lemma length_backward_pass [simp]: "length (backward_pass ts) = length ts"
  by (induction ts) (simp_all add: backward_pass_Cons, simp add: backward_pass_def)

lemma backward_pass_nth:
  "i < length ts \<Longrightarrow>
   backward_pass ts ! i =
     (ts ! i)\<lparr>wiped := (\<exists>q \<in> set (drop i ts). wipedBoundary q \<and>
                            recordSeconds (ts ! i) < recordSeconds q - epsilon)\<rparr>"
proof (induction ts arbitrary: i)
  case Nil
  then show ?case by simp
next
  case (Cons p ps)
  show ?case
  proof (cases i)
    case 0
    then show ?thesis by (simp add: backward_pass_Cons)
  next
    case (Suc k)
    with Cons.prems have "k < length ps" by simp
    from Cons.IH [OF this] Suc show ?thesis by (simp add: backward_pass_Cons)
  qed
qed

section \<open>Order of the timeline\<close>

lemma to_point_Some:
  "to_point dp pf pn (i, row) = Some p \<Longrightarrow>
   date p = date row \<and> record_time p = record_time row \<and> rowIndex p = i \<and>
   dp (date row) = Some (dateValue p) \<and> dateValue p \<noteq> 0 \<and>
   parseTimeToSeconds pf pn (record_time row) = Some (recordSeconds p)"
  by (auto simp: to_point_def CsvRow.defs split: option.splits if_splits)

lemma in_map_filter: "y \<in> set (List.map_filter f xs) = (\<exists>x \<in> set xs. f x = Some y)"
  by (induction xs) (auto split: option.splits)

lemma points_of_well_parsed:
  "p \<in> set (points_of dp pf pn rows) \<Longrightarrow> well_parsed dp pf pn p"
proof -
  assume "p \<in> set (points_of dp pf pn rows)"
  then obtain i row where "to_point dp pf pn (i, row) = Some p"
    by (auto simp: points_of_def in_map_filter)
  from to_point_Some [OF this] show ?thesis
    by (simp add: well_parsed_def)
qed

lemma rowIndex_map_filter:
  "map rowIndex (List.map_filter (to_point dp pf pn) xs) =
   map fst (filter (\<lambda>x. to_point dp pf pn x \<noteq> None) xs)"
proof (induction xs)
  case Nil
  show ?case by simp
next
  case (Cons x xs)
  obtain i row where x: "x = (i, row)" by (cases x)
  show ?case
  proof (cases "to_point dp pf pn (i, row)")
    case None
    with Cons x show ?thesis by simp
  next
    case (Some p)
    from to_point_Some [OF Some] have "rowIndex p = i"
      by simp
    with Cons x Some show ?thesis by simp
  qed
qed

lemma distinct_rowIndex_points_of: "distinct (map rowIndex (points_of dp pf pn rows))"
  by (simp add: points_of_def rowIndex_map_filter distinct_map_filter)

lemma distinct_keys_points_of: "distinct (map sort_key_of (points_of dp pf pn rows))"
proof -
  have "inj_on rowIndex (set (points_of dp pf pn rows))" and d: "distinct (points_of dp pf pn rows)"
    using distinct_rowIndex_points_of [of dp pf pn rows] by (simp_all add: distinct_map)
  then have "inj_on sort_key_of (set (points_of dp pf pn rows))"
    by (auto simp: inj_on_def sort_key_of_def)
  with d show ?thesis by (simp add: distinct_map)
qed

lemma strict_sorted_sort_points:
  "sorted_wrt (<) (map sort_key_of (sort_points (points_of dp pf pn rows)))"
proof -
  have "distinct (map sort_key_of (sort_points (points_of dp pf pn rows)))"
    using distinct_keys_points_of [of dp pf pn rows]
    by (simp add: distinct_map sort_points_def)
  then show ?thesis
    by (simp add: strict_sorted_iff sort_points_def)
qed

lemma strict_sorted_emitted_from:
  "sorted_wrt (<) (map sort_key_of ps) \<Longrightarrow> sorted_wrt (<) (map sort_key_of (emitted_from cur ps))"
proof (induction ps arbitrary: cur)
  case Nil
  show ?case by simp
next
  case (Cons p ps)
  then have rest: "\<And>c. sorted_wrt (<) (map sort_key_of (emitted_from c ps))"
    and hd: "\<forall>k \<in> set (map sort_key_of ps). sort_key_of p < k" by simp_all
  have le: "\<And>c. \<forall>k \<in> set (map sort_key_of (emitted_from c ps)). sort_key_of p < k"
    using hd keys_emitted_from by blast
  from forward_step_cases [of p cur] show ?case
    using rest le by (elim disjE exE conjE) simp_all
qed

lemma sort_key_of_wiped [simp]: "sort_key_of (p\<lparr>wiped := w\<rparr>) = sort_key_of p"
  by (simp add: sort_key_of_def)

lemma map_backward_pass:
  assumes "\<And>p w. f (p\<lparr>wiped := w\<rparr>) = f p"
  shows "map f (backward_pass ts) = map f ts"
  by (rule nth_equalityI) (simp_all add: backward_pass_nth assms)

lemma strict_sorted_timeline:
  "sorted_wrt (<) (map sort_key_of (timeline dp pf pn rows))"
  by (simp add: timeline_def map_backward_pass forward_pass_emitted
      strict_sorted_emitted_from strict_sorted_sort_points)

text \<open>
  Claim C5. For every filtered row sequence the emitted timeline is non-decreasing in
  \<open>dateValue\<close>, and two points with the same \<open>dateValue\<close> appear in ascending
  \<open>rowIndex\<close>.
\<close>

theorem timeline_chronological:
  "\<forall>i j. i < j \<and> j < length (timeline dp pf pn rows) \<longrightarrow>
     dateValue (timeline dp pf pn rows ! i) \<le> dateValue (timeline dp pf pn rows ! j) \<and>
     (dateValue (timeline dp pf pn rows ! i) = dateValue (timeline dp pf pn rows ! j) \<longrightarrow>
      rowIndex (timeline dp pf pn rows ! i) < rowIndex (timeline dp pf pn rows ! j))"
proof (intro allI impI)
  fix i j
  assume ij: "i < j \<and> j < length (timeline dp pf pn rows)"
  then have "map sort_key_of (timeline dp pf pn rows) ! i < map sort_key_of (timeline dp pf pn rows) ! j"
    using sorted_wrt_nth_less [OF strict_sorted_timeline [of dp pf pn rows], of i j]
    by simp
  with ij show
    "dateValue (timeline dp pf pn rows ! i) \<le> dateValue (timeline dp pf pn rows ! j) \<and>
     (dateValue (timeline dp pf pn rows ! i) = dateValue (timeline dp pf pn rows ! j) \<longrightarrow>
      rowIndex (timeline dp pf pn rows ! i) < rowIndex (timeline dp pf pn rows ! j))"
    by (auto simp: sort_key_of_def)
qed

text \<open>On the sample rows, two points of the same date are in the order of their row indices.\<close>

theorem timeline_chronological_witness:
  "dateValue (timeline sample_dates sample_float sample_int tie_rows ! 1) =
   dateValue (timeline sample_dates sample_float sample_int tie_rows ! 2) \<and>
   rowIndex (timeline sample_dates sample_float sample_int tie_rows ! 1) <
   rowIndex (timeline sample_dates sample_float sample_int tie_rows ! 2)"
proof -
  have len: "(1::nat) < 2 \<and> 2 < length (timeline sample_dates sample_float sample_int tie_rows)"
    by (simp add: tie_rows_def timeline_eval)
  have eq: "dateValue (timeline sample_dates sample_float sample_int tie_rows ! 1) =
            dateValue (timeline sample_dates sample_float sample_int tie_rows ! 2)"
    by (simp add: tie_rows_def timeline_eval)
  from timeline_chronological [of sample_dates sample_float sample_int tie_rows, rule_format, OF len] eq
  show ?thesis by simp
qed

lemma backward_pass_Nil [simp]: "backward_pass [] = []"
  by (simp add: backward_pass_def)

lemma backward_pass_eq_Nil [simp]: "(backward_pass ts = []) = (ts = [])"
  using length_backward_pass [of ts] by (simp only: length_0_conv [symmetric])

lemma last_backward_pass:
  "ts \<noteq> [] \<Longrightarrow> \<not> wiped (last (backward_pass ts))"
proof (induction ts)
  case Nil
  then show ?case by simp
next
  case (Cons p ps)
  show ?case
  proof (cases "ps = []")
    case True
    then show ?thesis using epsilon_pos by (simp add: backward_pass_Cons)
  next
    case False
    with Cons.IH show ?thesis by (simp add: backward_pass_Cons)
  qed
qed

text \<open>
  Claim C9. When the timeline is not empty, its last point, the one the \<open>stats\<close> memo
  shows as the current record, has \<open>wiped = false\<close>.
\<close>

theorem last_point_not_wiped:
  "timeline dp pf pn rows \<noteq> [] \<Longrightarrow> \<not> wiped (last (timeline dp pf pn rows))"
  by (simp add: timeline_def last_backward_pass)

text \<open>The last point of the sample scenario.\<close>

theorem last_point_not_wiped_witness:
  "timeline sample_dates sample_float sample_int scenario_rows \<noteq> [] \<and>
   \<not> wiped (last (timeline sample_dates sample_float sample_int scenario_rows))"
proof -
  have ne: "timeline sample_dates sample_float sample_int scenario_rows \<noteq> []"
    by (simp add: scenario_rows_def timeline_eval)
  from last_point_not_wiped [OF ne] ne show ?thesis by simp
qed

section \<open>Wiped points, epoch dates and non-improving rows\<close>

lemma backward_pass_fields [simp]:
  "i < length ts \<Longrightarrow> wipedBoundary (backward_pass ts ! i) = wipedBoundary (ts ! i)"
  "i < length ts \<Longrightarrow> recordSeconds (backward_pass ts ! i) = recordSeconds (ts ! i)"
  by (simp_all add: backward_pass_nth)

lemma backward_pass_wiped_iff:
  assumes "i < length ts"
  shows "wiped (backward_pass ts ! i) =
         (\<exists>j. i < j \<and> j < length ts \<and> wipedBoundary (ts ! j) \<and>
              recordSeconds (ts ! i) < recordSeconds (ts ! j) - epsilon)"
proof -
  have "(\<exists>q \<in> set (drop i ts). wipedBoundary q \<and> recordSeconds (ts ! i) < recordSeconds q - epsilon) =
        (\<exists>j. i \<le> j \<and> j < length ts \<and> wipedBoundary (ts ! j) \<and>
              recordSeconds (ts ! i) < recordSeconds (ts ! j) - epsilon)" (is "?L = ?R")
  proof
    assume ?L
    then obtain k where "k < length ts - i" "wipedBoundary (ts ! (i + k))"
      "recordSeconds (ts ! i) < recordSeconds (ts ! (i + k)) - epsilon"
      by (auto simp: in_set_conv_nth)
    then show ?R by (intro exI [of _ "i + k"]) auto
  next
    assume ?R
    then obtain j where j: "i \<le> j" "j < length ts" "wipedBoundary (ts ! j)"
      "recordSeconds (ts ! i) < recordSeconds (ts ! j) - epsilon" by blast
    then have "ts ! j \<in> set (drop i ts)"
      by (auto simp: in_set_conv_nth intro!: exI [of _ "j - i"])
    with j show ?L by blast
  qed
  moreover have "i < j" if "i \<le> j" "recordSeconds (ts ! i) < recordSeconds (ts ! j) - epsilon" for j
  proof (rule ccontr)
    assume "\<not> i < j"
    with that(1) have "i = j" by simp
    with that(2) epsilon_pos show False by simp
  qed
  ultimately show ?thesis
    using assms by (auto simp: backward_pass_nth)
qed

text \<open>The backward loop with a rounded subtraction.\<close>

lemma backward_step_fp_snd:
  "snd (backward_step_fp sub p st) = p\<lparr>wiped := (case fst (backward_step_fp sub p st) of None \<Rightarrow> False
       | Some x \<Rightarrow> recordSeconds p < sub x)\<rparr> # snd st"
  by (cases st) (simp add: backward_step_fp_def Let_def)

lemma backward_step_fp_fst:
  "fst (backward_step_fp sub p st) =
     (if wipedBoundary p
      then (case fst st of None \<Rightarrow> Some (recordSeconds p) | Some x \<Rightarrow> Some (max x (recordSeconds p)))
      else fst st)"
  by (cases st) (simp add: backward_step_fp_def Let_def)

lemma backward_fp_max_None:
  "(fst (foldr (backward_step_fp sub) ts (None, [])) = None) = (\<forall>p \<in> set ts. \<not> wipedBoundary p)"
  by (induction ts) (auto simp: backward_step_fp_fst split: option.splits)

lemma backward_fp_max_Some:
  "fst (foldr (backward_step_fp sub) ts (None, [])) = Some m \<Longrightarrow>
   (\<exists>p \<in> set ts. wipedBoundary p \<and> recordSeconds p = m) \<and>
   (\<forall>p \<in> set ts. wipedBoundary p \<longrightarrow> recordSeconds p \<le> m)"
proof (induction ts arbitrary: m)
  case Nil
  then show ?case by simp
next
  case (Cons p ps)
  show ?case
  proof (cases "fst (foldr (backward_step_fp sub) ps (None, []))")
    case None
    then have "\<forall>q \<in> set ps. \<not> wipedBoundary q" by (simp add: backward_fp_max_None)
    with Cons.prems None show ?thesis
      by (auto simp: backward_step_fp_fst split: if_splits)
  next
    case (Some x)
    from Cons.IH [OF Some] Cons.prems Some show ?thesis
      by (auto simp: backward_step_fp_fst max_def split: if_splits)
  qed
qed

lemma backward_pass_fp_Cons:
  assumes mono: "mono sub"
  shows "backward_pass_fp sub (p # ps) =
     p\<lparr>wiped := (\<exists>q \<in> set (p # ps). wipedBoundary q \<and> recordSeconds p < sub (recordSeconds q))\<rparr>
     # backward_pass_fp sub ps"
proof (cases "fst (foldr (backward_step_fp sub) (p # ps) (None, []))")
  case None
  then have "\<forall>q \<in> set (p # ps). \<not> wipedBoundary q" by (simp only: backward_fp_max_None)
  with None show ?thesis
    by (simp add: backward_pass_fp_def backward_step_fp_snd)
next
  case (Some m)
  from backward_fp_max_Some [OF Some] obtain b where b: "b \<in> set (p # ps)" "wipedBoundary b"
    "recordSeconds b = m" and le: "\<forall>q \<in> set (p # ps). wipedBoundary q \<longrightarrow> recordSeconds q \<le> m"
    by blast
  have "(recordSeconds p < sub m) =
        (\<exists>q \<in> set (p # ps). wipedBoundary q \<and> recordSeconds p < sub (recordSeconds q))"
  proof
    assume "recordSeconds p < sub m"
    with b show "\<exists>q \<in> set (p # ps). wipedBoundary q \<and> recordSeconds p < sub (recordSeconds q)"
      by blast
  next
    assume "\<exists>q \<in> set (p # ps). wipedBoundary q \<and> recordSeconds p < sub (recordSeconds q)"
    then obtain q where q: "q \<in> set (p # ps)" "wipedBoundary q"
      "recordSeconds p < sub (recordSeconds q)" by blast
    with le have "recordSeconds q \<le> m" by blast
    with mono have "sub (recordSeconds q) \<le> sub m" by (rule monoD)
    with q(3) show "recordSeconds p < sub m" by simp
  qed
  with Some show ?thesis
    by (simp add: backward_pass_fp_def backward_step_fp_snd)
qed

lemma length_backward_pass_fp [simp]: "length (backward_pass_fp sub ts) = length ts"
proof (induction ts)
  case Nil
  show ?case by (simp add: backward_pass_fp_def)
next
  case (Cons p ps)
  have "backward_pass_fp sub (p # ps) =
        hd (snd (backward_step_fp sub p (foldr (backward_step_fp sub) ps (None, [])))) # backward_pass_fp sub ps"
    by (simp add: backward_pass_fp_def backward_step_fp_snd)
  with Cons show ?case by simp
qed

lemma backward_pass_fp_nth:
  assumes "mono sub" "i < length ts"
  shows "backward_pass_fp sub ts ! i =
     (ts ! i)\<lparr>wiped := (\<exists>q \<in> set (drop i ts). wipedBoundary q \<and>
                            recordSeconds (ts ! i) < sub (recordSeconds q))\<rparr>"
  using assms(2)
proof (induction ts arbitrary: i)
  case Nil
  then show ?case by simp
next
  case (Cons p ps)
  show ?case
  proof (cases i)
    case 0
    then show ?thesis by (simp add: backward_pass_fp_Cons [OF assms(1)])
  next
    case (Suc k)
    with Cons.prems have "k < length ps" by simp
    from Cons.IH [OF this] Suc show ?thesis by (simp add: backward_pass_fp_Cons [OF assms(1)])
  qed
qed

lemma backward_pass_fp_wiped_iff:
  assumes "mono sub" "\<forall>x. sub x \<le> x" "i < length ts"
  shows "wiped (backward_pass_fp sub ts ! i) =
         (\<exists>j. i < j \<and> j < length ts \<and> wipedBoundary (ts ! j) \<and>
              recordSeconds (ts ! i) < sub (recordSeconds (ts ! j)))"
proof -
  have "(\<exists>q \<in> set (drop i ts). wipedBoundary q \<and> recordSeconds (ts ! i) < sub (recordSeconds q)) =
        (\<exists>j. i \<le> j \<and> j < length ts \<and> wipedBoundary (ts ! j) \<and>
              recordSeconds (ts ! i) < sub (recordSeconds (ts ! j)))" (is "?L = ?R")
  proof
    assume ?L
    then obtain k where "k < length ts - i" "wipedBoundary (ts ! (i + k))"
      "recordSeconds (ts ! i) < sub (recordSeconds (ts ! (i + k)))"
      by (auto simp: in_set_conv_nth)
    then show ?R by (intro exI [of _ "i + k"]) auto
  next
    assume ?R
    then obtain j where j: "i \<le> j" "j < length ts" "wipedBoundary (ts ! j)"
      "recordSeconds (ts ! i) < sub (recordSeconds (ts ! j))" by blast
    then have "ts ! j \<in> set (drop i ts)"
      by (auto simp: in_set_conv_nth intro!: exI [of _ "j - i"])
    with j show ?L by blast
  qed
  moreover have "i < j" if "i \<le> j" "recordSeconds (ts ! i) < sub (recordSeconds (ts ! j))" for j
  proof (rule ccontr)
    assume "\<not> i < j"
    with that(1) have "i = j" by simp
    with that(2) assms(2) show False by (metis not_less)
  qed
  ultimately show ?thesis
    using assms(3) by (auto simp: backward_pass_fp_nth [OF assms(1)])
qed

lemma backward_pass_fp_fields:
  "i < length ts \<Longrightarrow> wipedBoundary (backward_pass_fp sub ts ! i) = wipedBoundary (ts ! i)"
  "i < length ts \<Longrightarrow> recordSeconds (backward_pass_fp sub ts ! i) = recordSeconds (ts ! i)"
proof (induction ts arbitrary: i)
  case Nil
  { case 1 then show ?case by simp }
  { case 2 then show ?case by simp }
next
  case (Cons p ps)
  have c: "backward_pass_fp sub (p # ps) =
        hd (snd (backward_step_fp sub p (foldr (backward_step_fp sub) ps (None, [])))) # backward_pass_fp sub ps"
    by (simp add: backward_pass_fp_def backward_step_fp_snd)
  { case 1 with Cons(1) show ?case by (cases i) (simp_all add: c backward_step_fp_snd) }
  { case 2 with Cons(2) show ?case by (cases i) (simp_all add: c backward_step_fp_snd) }
qed

text \<open>
  Claim C2, as amended. After the backward pass a point is wiped exactly when some later
  point of the output is a wipe boundary and the point's time is below that boundary's time
  minus the tolerance, the subtraction being the rounded one of the source. (The backward
  pass compares with the running maximum of the boundary times, so a wiped point need not
  be faster than every later boundary.) The subtraction of a constant in double precision
  is monotone and does not exceed its argument, which is all that is used of it.
\<close>

theorem wiped_iff_later_slower_boundary:
  "mono sub \<and> (\<forall>x. sub x \<le> x) \<longrightarrow>
   (\<forall>i. i < length (timeline_fp dp pf pn sub add rows) \<longrightarrow>
     wiped (timeline_fp dp pf pn sub add rows ! i) =
     (\<exists>j. i < j \<and> j < length (timeline_fp dp pf pn sub add rows) \<and>
          wipedBoundary (timeline_fp dp pf pn sub add rows ! j) \<and>
          recordSeconds (timeline_fp dp pf pn sub add rows ! i)
            < sub (recordSeconds (timeline_fp dp pf pn sub add rows ! j))))"
  by (auto simp: timeline_fp_def backward_pass_fp_wiped_iff backward_pass_fp_fields)

text \<open>
  The sample operations, and the rows \<open>51.9501\<close>, \<open>40.00\<close>, \<open>51.9502\<close>: the last is a wipe
  boundary, the second point is wiped, and the first is not, since \<open>51.9502 - 0.0001\<close>
  rounds to \<open>51.9501\<close>.
\<close>

lemma mono_sample_sub: "mono sample_sub"
  by (auto simp: mono_def sample_sub_def d_51_9501_def d_51_9502_def)

lemma sample_sub_le: "sample_sub x \<le> x"
  by (auto simp: sample_sub_def d_51_9501_def d_51_9502_def)

lemmas timeline_fp_eval =
  timeline_fp_def points_of_def to_point_def parseTimeToSeconds_def
  sample_dates_def sample_double_def sample_float_def sample_int_def sample_row_def
  sort_points_def sort_key_of_def forward_pass_fp_def forward_step_fp_def
  backward_pass_fp_def backward_step_fp_def emit_def isWipeBoundaryTrigger_def
  trim_def toLowerCase_def lower_char_def is_space_def
  sample_sub_def sample_add_def d_51_9501_def d_51_9502_def
  CsvRow.defs DataPoint.defs enumerate_eq_zip char_of_def bit_Suc_0_iff

lemma near_tolerance_flags:
  "map wipedBoundary (timeline_fp sample_dates sample_double sample_int sample_sub sample_add
      near_tolerance_rows) = [False, False, True] \<and>
   map wiped (timeline_fp sample_dates sample_double sample_int sample_sub sample_add
      near_tolerance_rows) = [False, True, False]"
  by (simp add: near_tolerance_rows_def timeline_fp_eval)

theorem wiped_iff_later_slower_boundary_witness:
  "wiped (timeline_fp sample_dates sample_double sample_int sample_sub sample_add near_tolerance_rows ! 1) \<and>
   (\<exists>j. 1 < j \<and>
        j < length (timeline_fp sample_dates sample_double sample_int sample_sub sample_add near_tolerance_rows) \<and>
        wipedBoundary (timeline_fp sample_dates sample_double sample_int sample_sub sample_add near_tolerance_rows ! j) \<and>
        recordSeconds (timeline_fp sample_dates sample_double sample_int sample_sub sample_add near_tolerance_rows ! 1)
          < sample_sub (recordSeconds
              (timeline_fp sample_dates sample_double sample_int sample_sub sample_add near_tolerance_rows ! j))) \<and>
   \<not> wiped (timeline_fp sample_dates sample_double sample_int sample_sub sample_add near_tolerance_rows ! 0) \<and>
   \<not> recordSeconds (timeline_fp sample_dates sample_double sample_int sample_sub sample_add near_tolerance_rows ! 0)
       < sample_sub (recordSeconds
           (timeline_fp sample_dates sample_double sample_int sample_sub sample_add near_tolerance_rows ! 2))"
proof -
  let ?out = "timeline_fp sample_dates sample_double sample_int sample_sub sample_add near_tolerance_rows"
  have h: "mono sample_sub \<and> (\<forall>x. sample_sub x \<le> x)"
    by (simp add: mono_sample_sub sample_sub_le)
  have len: "length ?out = 3"
    using near_tolerance_flags by (metis length_map length_Cons list.size(3) numeral_3_eq_3)
  have w1: "wiped (?out ! 1)" and w0: "\<not> wiped (?out ! 0)" and b2: "wipedBoundary (?out ! 2)"
    by (simp_all add: near_tolerance_rows_def timeline_fp_eval)
  note iff = wiped_iff_later_slower_boundary [of sample_sub sample_dates sample_double sample_int
      sample_add near_tolerance_rows, rule_format, OF h]
  from iff [of 1] len w1
  have e1: "\<exists>j. 1 < j \<and> j < length ?out \<and> wipedBoundary (?out ! j) \<and>
      recordSeconds (?out ! 1) < sample_sub (recordSeconds (?out ! j))" by simp
  from iff [of 0] len w0
  have "\<not> (\<exists>j. 0 < j \<and> j < length ?out \<and> wipedBoundary (?out ! j) \<and>
      recordSeconds (?out ! 0) < sample_sub (recordSeconds (?out ! j)))" by simp
  with len b2 have e0: "\<not> recordSeconds (?out ! 0) < sample_sub (recordSeconds (?out ! 2))"
    by (metis zero_less_numeral lessI numeral_3_eq_3 numeral_2_eq_2)
  from w1 e1 w0 e0 show ?thesis by blast
qed

text \<open>
  On the sample rows with two wipe boundaries the first point (60 seconds) is wiped and precedes the wipe boundary of 55 seconds,
  without being faster than it: the bound of the specification on every later boundary
  does not hold.
\<close>

theorem wiped_point_slower_than_later_boundary:
  "2 < length (timeline sample_dates sample_float sample_int two_boundaries_rows) \<and>
   wiped (timeline sample_dates sample_float sample_int two_boundaries_rows ! 0) \<and>
   wipedBoundary (timeline sample_dates sample_float sample_int two_boundaries_rows ! 2) \<and>
   \<not> recordSeconds (timeline sample_dates sample_float sample_int two_boundaries_rows ! 0)
       < recordSeconds (timeline sample_dates sample_float sample_int two_boundaries_rows ! 2)"
  by (simp add: two_boundaries_rows_def timeline_eval)

lemma to_point_epoch:
  "to_point (\<lambda>s. if dp s = Some 0 then None else dp s) pf pn = to_point dp pf pn"
  by (rule ext) (auto simp: to_point_def split: option.splits prod.splits)

lemma emitted_from_mem:
  "t \<in> set (emitted_from cur ps) \<Longrightarrow> \<exists>p \<in> set ps. \<exists>b. t = emit p b"
proof (induction ps arbitrary: cur)
  case Nil
  then show ?case by simp
next
  case (Cons p ps)
  from forward_step_cases [of p cur] Cons.prems Cons.IH show ?case
    by (elim disjE exE conjE) (simp; blast)+
qed

lemma well_parsed_emit [simp]: "well_parsed dp pf pn (emit p b) = well_parsed dp pf pn p"
  by (simp add: well_parsed_def emit_def DataPoint.defs)

lemma well_parsed_wiped [simp]: "well_parsed dp pf pn (p\<lparr>wiped := w\<rparr>) = well_parsed dp pf pn p"
  by (simp add: well_parsed_def)

lemma timeline_well_parsed:
  assumes "t \<in> set (timeline dp pf pn rows)"
  shows "well_parsed dp pf pn t"
proof -
  let ?fw = "forward_pass (sort_points (points_of dp pf pn rows))"
  from assms obtain i where i: "i < length ?fw" and t: "t = backward_pass ?fw ! i"
    by (auto simp: timeline_def in_set_conv_nth)
  from i have "?fw ! i \<in> set ?fw" by simp
  then obtain p b where "p \<in> set (points_of dp pf pn rows)" "?fw ! i = emit p b"
    by (auto simp: forward_pass_emitted sort_points_def dest!: emitted_from_mem)
  then show ?thesis
    using i t by (simp add: backward_pass_nth points_of_well_parsed)
qed

text \<open>
  Claim C10. A date that parses to the time value \<open>0\<close> is treated exactly like a date
  that does not parse: replacing the result \<open>0\<close> of \<open>Date.parse\<close> by \<open>NaN\<close> leaves the
  timeline unchanged, and no point of the timeline has a date that parses to \<open>0\<close>.
\<close>

theorem epoch_date_excluded:
  "timeline dp pf pn rows = timeline (\<lambda>s. if dp s = Some 0 then None else dp s) pf pn rows \<and>
   (\<forall>t \<in> set (timeline dp pf pn rows). dp (date t) \<noteq> Some 0)"
proof
  show "timeline dp pf pn rows = timeline (\<lambda>s. if dp s = Some 0 then None else dp s) pf pn rows"
    by (simp add: timeline_def points_of_def to_point_epoch)
  show "\<forall>t \<in> set (timeline dp pf pn rows). dp (date t) \<noteq> Some 0"
    using timeline_well_parsed [of _ dp pf pn rows] by (auto simp: well_parsed_def)
qed

text \<open>On the sample rows, the row dated at the epoch is dropped and the other one is kept.\<close>

theorem epoch_date_excluded_witness:
  "map rowIndex (timeline sample_dates sample_float sample_int epoch_rows) = [1] \<and>
   sample_dates (date (epoch_rows ! 0)) = Some 0 \<and>
   sample_dates (date (timeline sample_dates sample_float sample_int epoch_rows ! 0)) \<noteq> Some 0 \<and>
   timeline sample_dates sample_float sample_int epoch_rows =
   timeline (\<lambda>s. if sample_dates s = Some 0 then None else sample_dates s)
     sample_float sample_int epoch_rows"
proof -
  have idx: "map rowIndex (timeline sample_dates sample_float sample_int epoch_rows) = [1]"
    by (simp add: epoch_rows_def timeline_eval)
  then have "length (timeline sample_dates sample_float sample_int epoch_rows) = 1"
    by (metis length_map length_Cons list.size(3) One_nat_def)
  then have mem: "timeline sample_dates sample_float sample_int epoch_rows ! 0
      \<in> set (timeline sample_dates sample_float sample_int epoch_rows)"
    by simp
  have ep: "sample_dates (date (epoch_rows ! 0)) = Some 0"
    by (simp add: epoch_rows_def sample_dates_def sample_row_def)
  from epoch_date_excluded [of sample_dates sample_float sample_int epoch_rows] mem idx ep
  show ?thesis by blast
qed

lemma fold_forward_step_fp_state:
  "pre \<noteq> [] \<Longrightarrow>
   fold (forward_step_fp sub add) pre (None, []) =
     (Some (recordSeconds (last (forward_pass_fp sub add pre))), forward_pass_fp sub add pre) \<and>
   forward_pass_fp sub add pre \<noteq> []"
proof (induction pre rule: rev_induct)
  case Nil
  then show ?case by simp
next
  case (snoc x xs)
  show ?case
  proof (cases "xs = []")
    case True
    then show ?thesis
      by (simp add: forward_pass_fp_def forward_step_fp_def emit_def DataPoint.defs)
  next
    case False
    let ?o = "forward_pass_fp sub add xs"
    from snoc.IH [OF False]
    have st: "fold (forward_step_fp sub add) xs (None, []) = (Some (recordSeconds (last ?o)), ?o)"
      and out: "?o \<noteq> []" by simp_all
    have e: "fold (forward_step_fp sub add) (xs @ [x]) (None, []) =
        forward_step_fp sub add x (Some (recordSeconds (last ?o)), ?o)"
      by (simp add: st)
    have p: "forward_pass_fp sub add (xs @ [x]) =
        snd (forward_step_fp sub add x (Some (recordSeconds (last ?o)), ?o))"
      by (simp only: forward_pass_fp_def [of sub add "xs @ [x]"] e)
    show ?thesis
      unfolding e p using out
      by (simp add: forward_step_fp_def emit_def DataPoint.defs)
  qed
qed

text \<open>
  Claim C3, as amended. Let \<open>pre\<close> be the rows already processed (at least one) and \<open>p\<close>
  the next one, not a strict improvement on the current best, which is the time of the
  last emitted point. The loop state \<open>(current, timeline)\<close> after \<open>p\<close> is: \<open>p\<close> pushed with
  \<open>wipedBoundary = true\<close> and \<open>current\<close> set to its time, if the evidence of \<open>p\<close>, trimmed
  and lower-cased, is \<open>record\<close>, or is \<open>announcement\<close> with trimmed and lower-cased source
  \<open>irc_set\<close>, and its time is above the current best plus the tolerance; the unchanged
  state otherwise. Both comparisons are against the rounded results \<open>sub current\<close> and
  \<open>add current\<close> of the source's double arithmetic.
\<close>

theorem non_improving_row:
  assumes "pre \<noteq> []"
    and "\<not> recordSeconds p < sub (recordSeconds (last (forward_pass_fp sub add pre)))"
  shows "fold (forward_step_fp sub add) (pre @ [p]) (None, []) =
     (if (toLowerCase (trim (evidence p)) = ''record'' \<or>
          (toLowerCase (trim (evidence p)) = ''announcement'' \<and>
           toLowerCase (trim (evidence_source p)) = ''irc_set'')) \<and>
         recordSeconds p > add (recordSeconds (last (forward_pass_fp sub add pre)))
      then (Some (recordSeconds p), forward_pass_fp sub add pre @ [emit p True])
      else (Some (recordSeconds (last (forward_pass_fp sub add pre))), forward_pass_fp sub add pre)) \<and>
     forward_pass_fp sub add (pre @ [p]) = snd (fold (forward_step_fp sub add) (pre @ [p]) (None, [])) \<and>
     wipedBoundary (emit p True) \<and> \<not> wiped (emit p True)"
proof -
  from fold_forward_step_fp_state [OF assms(1), of sub add]
  have st: "fold (forward_step_fp sub add) pre (None, []) =
      (Some (recordSeconds (last (forward_pass_fp sub add pre))), forward_pass_fp sub add pre)"
    by simp
  have "fold (forward_step_fp sub add) (pre @ [p]) (None, []) =
      forward_step_fp sub add p
        (Some (recordSeconds (last (forward_pass_fp sub add pre))), forward_pass_fp sub add pre)"
    by (simp add: st)
  moreover have "forward_pass_fp sub add (pre @ [p]) =
      snd (fold (forward_step_fp sub add) (pre @ [p]) (None, []))"
    by (simp only: forward_pass_fp_def)
  moreover have "wipedBoundary (emit p True) \<and> \<not> wiped (emit p True)"
    by (simp add: emit_def DataPoint.defs)
  ultimately show ?thesis using assms(2)
    by (simp add: forward_step_fp_def isWipeBoundaryTrigger_def Let_def)
qed

text \<open>
  A record of \<open>51.9502\<close> after one of \<open>51.9501\<close> is dropped, since \<open>51.9501 + 0.0001\<close>
  rounds to \<open>51.9502\<close>; the slower announcement whose source is written in capitals is
  pushed as a wipe boundary.
\<close>

theorem non_improving_row_witness:
  "fold (forward_step_fp sample_sub sample_add)
     ([near_tolerance_points ! 0] @ [near_tolerance_points ! 1]) (None, []) =
     (Some d_51_9501, forward_pass_fp sample_sub sample_add [near_tolerance_points ! 0]) \<and>
   fold (forward_step_fp sample_sub sample_add)
     ([upper_case_source_points ! 0] @ [upper_case_source_points ! 1]) (None, []) =
     (Some 65, forward_pass_fp sample_sub sample_add [upper_case_source_points ! 0] @
               [emit (upper_case_source_points ! 1) True])"
proof -
  have n1: "[near_tolerance_points ! 0] \<noteq> []" and u1: "[upper_case_source_points ! 0] \<noteq> []"
    by simp_all
  have n2: "\<not> recordSeconds (near_tolerance_points ! 1)
       < sample_sub (recordSeconds (last (forward_pass_fp sample_sub sample_add [near_tolerance_points ! 0])))"
    by (simp add: near_tolerance_points_def timeline_fp_eval)
  have n3: "recordSeconds (last (forward_pass_fp sample_sub sample_add [near_tolerance_points ! 0])) = d_51_9501 \<and>
      \<not> recordSeconds (near_tolerance_points ! 1)
        > sample_add (recordSeconds (last (forward_pass_fp sample_sub sample_add [near_tolerance_points ! 0])))"
    by (simp add: near_tolerance_points_def timeline_fp_eval)
  have u2: "\<not> recordSeconds (upper_case_source_points ! 1)
       < sample_sub (recordSeconds (last (forward_pass_fp sample_sub sample_add [upper_case_source_points ! 0])))"
    by (simp add: upper_case_source_points_def upper_case_source_rows_def timeline_fp_eval)
  have u3: "toLowerCase (trim (evidence (upper_case_source_points ! 1))) = ''announcement'' \<and>
      toLowerCase (trim (evidence_source (upper_case_source_points ! 1))) = ''irc_set'' \<and>
      recordSeconds (upper_case_source_points ! 1) = 65 \<and>
      recordSeconds (upper_case_source_points ! 1)
        > sample_add (recordSeconds (last (forward_pass_fp sample_sub sample_add [upper_case_source_points ! 0])))"
    by (simp add: upper_case_source_points_def upper_case_source_rows_def timeline_fp_eval)
  let ?cn = "recordSeconds (last (forward_pass_fp sample_sub sample_add [near_tolerance_points ! 0]))"
  let ?cu = "recordSeconds (last (forward_pass_fp sample_sub sample_add [upper_case_source_points ! 0]))"
  from n3 have nc: "\<not> ((toLowerCase (trim (evidence (near_tolerance_points ! 1))) = ''record'' \<or>
          (toLowerCase (trim (evidence (near_tolerance_points ! 1))) = ''announcement'' \<and>
           toLowerCase (trim (evidence_source (near_tolerance_points ! 1))) = ''irc_set'')) \<and>
         recordSeconds (near_tolerance_points ! 1) > sample_add ?cn)"
    by blast
  from non_improving_row [of "[near_tolerance_points ! 0]" "near_tolerance_points ! 1"
      sample_sub sample_add, OF n1 n2, THEN conjunct1]
  have "fold (forward_step_fp sample_sub sample_add)
     ([near_tolerance_points ! 0] @ [near_tolerance_points ! 1]) (None, []) =
     (Some ?cn, forward_pass_fp sample_sub sample_add [near_tolerance_points ! 0])"
    by (simp only: nc [THEN Eq_FalseI] if_False)
  then have a: "fold (forward_step_fp sample_sub sample_add)
     ([near_tolerance_points ! 0] @ [near_tolerance_points ! 1]) (None, []) =
     (Some d_51_9501, forward_pass_fp sample_sub sample_add [near_tolerance_points ! 0])"
    by (simp only: conjunct1 [OF n3])
  from u3 have uc: "(toLowerCase (trim (evidence (upper_case_source_points ! 1))) = ''record'' \<or>
          (toLowerCase (trim (evidence (upper_case_source_points ! 1))) = ''announcement'' \<and>
           toLowerCase (trim (evidence_source (upper_case_source_points ! 1))) = ''irc_set'')) \<and>
         recordSeconds (upper_case_source_points ! 1) > sample_add ?cu"
    by blast
  from u3 have r65: "recordSeconds (upper_case_source_points ! 1) = 65" by blast
  from non_improving_row [of "[upper_case_source_points ! 0]" "upper_case_source_points ! 1"
      sample_sub sample_add, OF u1 u2, THEN conjunct1]
  have "fold (forward_step_fp sample_sub sample_add)
     ([upper_case_source_points ! 0] @ [upper_case_source_points ! 1]) (None, []) =
     (Some (recordSeconds (upper_case_source_points ! 1)),
      forward_pass_fp sample_sub sample_add [upper_case_source_points ! 0] @
        [emit (upper_case_source_points ! 1) True])"
    by (simp only: uc [THEN eqTrueI] if_True)
  then have b: "fold (forward_step_fp sample_sub sample_add)
     ([upper_case_source_points ! 0] @ [upper_case_source_points ! 1]) (None, []) =
     (Some 65, forward_pass_fp sample_sub sample_add [upper_case_source_points ! 0] @
               [emit (upper_case_source_points ! 1) True])"
    by (simp only: r65)
  from a b show ?thesis by (rule conjI)
qed

text \<open>
  The row with the source in capitals in the timeline: it is emitted as a wipe boundary although its source is
  not literally \<open>irc_set\<close>, so the condition of the specification on the raw strings
  is not necessary.
\<close>

theorem upper_case_source_emitted:
  "map recordSeconds (timeline sample_dates sample_float sample_int upper_case_source_rows) = [55, 65] \<and>
   map wipedBoundary (timeline sample_dates sample_float sample_int upper_case_source_rows) = [False, True] \<and>
   evidence (upper_case_source_rows ! 1) = ''announcement'' \<and>
   evidence_source (upper_case_source_rows ! 1) \<noteq> ''irc_set''"
  by (simp add: upper_case_source_rows_def timeline_eval char_of_def bit_Suc_0_iff)

section \<open>The wipe scenario\<close>

text \<open>
  Claim C1, as amended. For three rows with increasing non-zero time values, times 60, 55
  and 65 seconds, evidence \<open>record\<close>, \<open>record\<close> and \<open>announcement\<close> from \<open>irc_set\<close>, all
  three rows are emitted in order, only the third is a wipe boundary, and the backward
  pass marks the first and the second point as wiped (both are more than the tolerance
  below 65) and leaves the third unwiped.
\<close>

theorem wipe_scenario:
  assumes "dp (date r1) = Some d1" "dp (date r2) = Some d2" "dp (date r3) = Some d3"
    and "d1 < d2" "d2 < d3" "d1 \<noteq> 0" "d2 \<noteq> 0" "d3 \<noteq> 0"
    and "parseTimeToSeconds pf pn (record_time r1) = Some 60"
    and "parseTimeToSeconds pf pn (record_time r2) = Some 55"
    and "parseTimeToSeconds pf pn (record_time r3) = Some 65"
    and "evidence r1 = ''record''" "evidence r2 = ''record''"
    and "evidence r3 = ''announcement''" "evidence_source r3 = ''irc_set''"
  shows "map CsvRow.truncate (timeline dp pf pn [r1, r2, r3]) = [r1, r2, r3] \<and>
         map wipedBoundary (timeline dp pf pn [r1, r2, r3]) = [False, False, True] \<and>
         map wiped (timeline dp pf pn [r1, r2, r3]) = [True, True, False]"
  using assms
  by (simp add: timeline_def points_of_def to_point_def sort_points_def sort_key_of_def
      forward_pass_def forward_step_exact backward_pass_def backward_step_exact emit_def
      isWipeBoundaryTrigger_def trim_def toLowerCase_def lower_char_def is_space_def
      epsilon_def CsvRow.defs DataPoint.defs enumerate_eq_zip)

text \<open>The scenario on the sample rows.\<close>

theorem wipe_scenario_witness:
  "map CsvRow.truncate (timeline sample_dates sample_float sample_int scenario_rows) = scenario_rows \<and>
   map wipedBoundary (timeline sample_dates sample_float sample_int scenario_rows) = [False, False, True] \<and>
   map wiped (timeline sample_dates sample_float sample_int scenario_rows) = [True, True, False]"
  unfolding scenario_rows_def
  by (rule wipe_scenario [where ?d1.0 = 1325376000000 and ?d2.0 = 1325462400000 and ?d3.0 = 1325548800000])
     (simp_all add: sample_dates_def sample_float_def sample_int_def sample_row_def parseTimeToSeconds_def)

text \<open>
  On the sample rows the first point, with 60 seconds, is wiped: the scenario as the
  specification words it, with the first point unwiped, does not hold.
\<close>

theorem wipe_scenario_first_point_wiped:
  "length (timeline sample_dates sample_float sample_int scenario_rows) = 3 \<and>
   recordSeconds (timeline sample_dates sample_float sample_int scenario_rows ! 0) = 60 \<and>
   wiped (timeline sample_dates sample_float sample_int scenario_rows ! 0)"
  by (simp add: scenario_rows_def timeline_eval)

section \<open>Running the reconstructor on its own output\<close>

lemma length_renumber [simp]: "length (renumber ts) = length ts"
  by (simp add: renumber_def)

lemma nth_renumber [simp]: "k < length ts \<Longrightarrow> renumber ts ! k = (ts ! k)\<lparr>rowIndex := k\<rparr>"
  by (simp add: renumber_def nth_enumerate_eq)

lemma to_point_truncate:
  "well_parsed dp pf pn t \<Longrightarrow>
   to_point dp pf pn (i, CsvRow.truncate t) = Some ((DataPoint.truncate t)\<lparr>rowIndex := i\<rparr>)"
  by (cases t) (simp add: well_parsed_def to_point_def CsvRow.defs DataPoint.defs)

lemma map_filter_truncate:
  "\<forall>t \<in> set ts. well_parsed dp pf pn t \<Longrightarrow>
   List.map_filter (to_point dp pf pn) (enumerate n (map CsvRow.truncate ts)) =
   map (\<lambda>(i, t). (DataPoint.truncate t)\<lparr>rowIndex := i\<rparr>) (enumerate n ts)"
  by (induction ts arbitrary: n) (simp_all add: to_point_truncate)

lemma points_of_truncate:
  "\<forall>t \<in> set ts. well_parsed dp pf pn t \<Longrightarrow>
   points_of dp pf pn (map CsvRow.truncate ts) =
   map (\<lambda>(i, t). (DataPoint.truncate t)\<lparr>rowIndex := i\<rparr>) (enumerate 0 ts)"
  by (simp add: points_of_def map_filter_truncate)

lemma forward_step_same_decision:
  assumes "recordSeconds q = recordSeconds p"
    and "isWipeBoundaryTrigger q = isWipeBoundaryTrigger p"
  shows "forward_step p (cur, []) = (cur, []) \<and> cur \<noteq> None \<Longrightarrow> forward_step q (cur, []) = (cur, [])"
    and "forward_step p (cur, []) = (Some (recordSeconds p), [emit p b]) \<Longrightarrow>
         forward_step q (cur, []) = (Some (recordSeconds q), [emit q b])"
proof -
  have wb: "\<And>x y. emit p x = emit p y \<Longrightarrow> x = y"
    by (simp add: emit_def DataPoint.defs)
  show "forward_step p (cur, []) = (cur, []) \<and> cur \<noteq> None \<Longrightarrow> forward_step q (cur, []) = (cur, [])"
    using assms by (auto simp: forward_step_exact split: option.splits if_splits)
  show "forward_step p (cur, []) = (Some (recordSeconds p), [emit p b]) \<Longrightarrow>
         forward_step q (cur, []) = (Some (recordSeconds q), [emit q b])"
    using assms by (auto simp: forward_step_exact split: option.splits if_splits dest: wb)
qed

lemma emitted_from_all_again:
  "list_all2 (\<lambda>q t. recordSeconds q = recordSeconds t \<and>
                     isWipeBoundaryTrigger q = isWipeBoundaryTrigger t) qs (emitted_from cur ps) \<Longrightarrow>
   emitted_from cur qs = map2 (\<lambda>q t. emit q (wipedBoundary t)) qs (emitted_from cur ps)"
proof (induction ps arbitrary: cur qs)
  case Nil
  then show ?case by simp
next
  case (Cons p ps)
  from forward_step_cases [of p cur] show ?case
  proof (elim disjE exE conjE)
    assume "forward_step p (cur, []) = (cur, [])" "cur \<noteq> None"
    with Cons show ?thesis by simp
  next
    fix b
    assume st: "forward_step p (cur, []) = (Some (recordSeconds p), [emit p b])"
    with Cons.prems obtain q qs' where qs: "qs = q # qs'"
      and q: "recordSeconds q = recordSeconds p" "isWipeBoundaryTrigger q = isWipeBoundaryTrigger p"
      and rest: "list_all2 (\<lambda>q t. recordSeconds q = recordSeconds t \<and>
                     isWipeBoundaryTrigger q = isWipeBoundaryTrigger t) qs'
                   (emitted_from (Some (recordSeconds p)) ps)"
      by (auto simp: list_all2_Cons2 emit_def DataPoint.defs isWipeBoundaryTrigger_def)
    from forward_step_same_decision(2) [OF q st]
    have "forward_step q (cur, []) = (Some (recordSeconds p), [emit q b])" by (simp add: q)
    with Cons.IH [OF rest] st qs show ?thesis
      by (simp add: emit_def DataPoint.defs)
  qed
qed

lemma emitted_from_not_wiped: "t \<in> set (emitted_from cur ps) \<Longrightarrow> \<not> wiped t"
  by (auto dest!: emitted_from_mem simp: emit_def DataPoint.defs)

lemma emit_truncate:
  "\<not> wiped t \<Longrightarrow> emit ((DataPoint.truncate t)\<lparr>rowIndex := k\<rparr>) (wipedBoundary t) = t\<lparr>rowIndex := k\<rparr>"
  by (cases t) (simp add: emit_def DataPoint.defs)

lemma truncate_wiped [simp]: "DataPoint.truncate (t\<lparr>wiped := w\<rparr>) = DataPoint.truncate t"
  by (cases t) (simp add: DataPoint.defs)

lemma truncate_fields [simp]:
  "recordSeconds ((DataPoint.truncate t)\<lparr>rowIndex := k\<rparr>) = recordSeconds t"
  "dateValue ((DataPoint.truncate t)\<lparr>rowIndex := k\<rparr>) = dateValue t"
  "rowIndex ((DataPoint.truncate t)\<lparr>rowIndex := k\<rparr>) = k"
  "isWipeBoundaryTrigger ((DataPoint.truncate t)\<lparr>rowIndex := k\<rparr>) = isWipeBoundaryTrigger t"
  by (cases t; simp add: DataPoint.defs isWipeBoundaryTrigger_def)+

lemma forward_pass_again:
  fixes ps :: "DataPoint list"
  defines "fw \<equiv> forward_pass ps"
  defines "qs \<equiv> map (\<lambda>(i, t). (DataPoint.truncate t)\<lparr>rowIndex := i\<rparr>) (enumerate 0 fw)"
  shows "forward_pass qs = renumber fw"
proof -
  have len: "length qs = length fw" by (simp add: qs_def)
  have nth: "\<And>k. k < length fw \<Longrightarrow> qs ! k = (DataPoint.truncate (fw ! k))\<lparr>rowIndex := k\<rparr>"
    by (simp add: qs_def nth_enumerate_eq)
  have "list_all2 (\<lambda>q t. recordSeconds q = recordSeconds t \<and>
                     isWipeBoundaryTrigger q = isWipeBoundaryTrigger t) qs (emitted_from None ps)"
    using len nth by (simp add: list_all2_conv_all_nth fw_def forward_pass_emitted)
  from emitted_from_all_again [OF this]
  have eq: "forward_pass qs = map2 (\<lambda>q t. emit q (wipedBoundary t)) qs fw"
    by (simp add: forward_pass_emitted fw_def)
  show ?thesis
  proof (rule nth_equalityI)
    show "length (forward_pass qs) = length (renumber fw)" by (simp add: eq len)
  next
    fix k
    assume "k < length (forward_pass qs)"
    then have k: "k < length fw" by (simp add: eq len)
    then have "fw ! k \<in> set (emitted_from None ps)"
      by (simp add: fw_def forward_pass_emitted)
    then have "\<not> wiped (fw ! k)" by (rule emitted_from_not_wiped)
    then show "forward_pass qs ! k = renumber fw ! k"
      using k by (simp add: eq len nth emit_truncate)
  qed
qed

lemma backward_pass_renumber: "backward_pass (renumber ts) = renumber (backward_pass ts)"
proof (rule nth_equalityI)
  show "length (backward_pass (renumber ts)) = length (renumber (backward_pass ts))" by simp
next
  fix k
  assume "k < length (backward_pass (renumber ts))"
  then have k: "k < length ts" by simp
  have "backward_pass (renumber ts) ! k =
        (renumber ts ! k)\<lparr>wiped := wiped (backward_pass (renumber ts) ! k)\<rparr>"
    using k by (simp add: backward_pass_nth)
  also have "wiped (backward_pass (renumber ts) ! k) = wiped (backward_pass ts ! k)"
    using k by (simp add: backward_pass_wiped_iff cong: conj_cong)
  finally show "backward_pass (renumber ts) ! k = renumber (backward_pass ts) ! k"
    using k by (simp add: backward_pass_nth)
qed

lemma sorted_dateValue_timeline: "sorted (map dateValue (timeline dp pf pn rows))"
proof -
  have "i < j \<Longrightarrow> j < length (timeline dp pf pn rows) \<Longrightarrow>
        dateValue (timeline dp pf pn rows ! i) \<le> dateValue (timeline dp pf pn rows ! j)" for i j
    using sorted_wrt_nth_less [OF strict_sorted_timeline [of dp pf pn rows], of i j]
    by (auto simp: sort_key_of_def)
  then show ?thesis by (simp add: sorted_iff_nth_mono_less)
qed

lemma sort_points_renumbered:
  assumes "sorted (map dateValue ts)"
  shows "sort_points (map (\<lambda>(i, t). (DataPoint.truncate t)\<lparr>rowIndex := i\<rparr>) (enumerate 0 ts)) =
         map (\<lambda>(i, t). (DataPoint.truncate t)\<lparr>rowIndex := i\<rparr>) (enumerate 0 ts)"
  unfolding sort_points_def
proof (rule sort_key_id_if_sorted)
  let ?qs = "map (\<lambda>(i, t). (DataPoint.truncate t)\<lparr>rowIndex := i\<rparr>) (enumerate 0 ts)"
  have "map sort_key_of ?qs ! i \<le> map sort_key_of ?qs ! j" if "i < j" "j < length ts" for i j
  proof -
    from assms that have "dateValue (ts ! i) \<le> dateValue (ts ! j)"
      by (simp add: sorted_iff_nth_mono_less)
    with that show ?thesis
      by (auto simp: nth_enumerate_eq sort_key_of_def)
  qed
  then show "sorted (map sort_key_of ?qs)"
    by (simp add: sorted_iff_nth_mono_less del: nth_map)
qed

text \<open>
  Claim C4, as amended. Running the reconstructor on the rows of its own output gives the
  same points again, with the same row fields, \<open>dateValue\<close>, \<open>recordSeconds\<close>, \<open>wiped\<close> and
  \<open>wipedBoundary\<close>, except that each \<open>rowIndex\<close> is now the position of the point in the
  output.
\<close>

theorem timeline_again:
  "timeline dp pf pn (map CsvRow.truncate (timeline dp pf pn rows)) =
   renumber (timeline dp pf pn rows)"
proof -
  let ?fw = "forward_pass (sort_points (points_of dp pf pn rows))"
  let ?out = "timeline dp pf pn rows"
  let ?Q = "\<lambda>ts :: TimelinePoint list.
     map (\<lambda>(i, t). (DataPoint.truncate t)\<lparr>rowIndex := i\<rparr>) (enumerate 0 ts)"
  have out: "?out = backward_pass ?fw" by (simp add: timeline_def)
  have "points_of dp pf pn (map CsvRow.truncate ?out) = ?Q ?out"
    by (rule points_of_truncate) (simp add: timeline_well_parsed)
  moreover have "sort_points (?Q ?out) = ?Q ?out"
    by (rule sort_points_renumbered) (rule sorted_dateValue_timeline)
  moreover have "?Q ?out = ?Q ?fw"
    by (rule nth_equalityI) (simp_all add: out nth_enumerate_eq backward_pass_nth)
  moreover have "forward_pass (?Q ?fw) = renumber ?fw"
    by (rule forward_pass_again)
  ultimately have "timeline dp pf pn (map CsvRow.truncate ?out) = backward_pass (renumber ?fw)"
    by (simp add: timeline_def [of dp pf pn "map CsvRow.truncate ?out"])
  then show ?thesis by (simp add: backward_pass_renumber out)
qed

text \<open>The second run on the sample rows with a dropped row.\<close>

theorem timeline_again_witness:
  "timeline sample_dates sample_float sample_int
     (map CsvRow.truncate (timeline sample_dates sample_float sample_int dropped_row_rows)) =
   renumber (timeline sample_dates sample_float sample_int dropped_row_rows)"
  by (rule timeline_again)

text \<open>
  There the first run numbers its two points 0 and 2 (row 1 is dropped) and the second run
  numbers them 0 and 1: the two outputs are not the same sequence of timeline points.
\<close>

theorem timeline_again_rowIndex_differs:
  "map rowIndex (timeline sample_dates sample_float sample_int dropped_row_rows) = [0, 2] \<and>
   map rowIndex (timeline sample_dates sample_float sample_int
     (map CsvRow.truncate (timeline sample_dates sample_float sample_int dropped_row_rows))) = [0, 1]"
  by (simp add: dropped_row_rows_def timeline_eval)

section \<open>The CSV decoder\<close>

text \<open>An induction rule with one case for each branch of the loop body.\<close>

lemma scan_induct [case_names at_end close_at_end escaped close_quote quoted open_quote comma cr newline plain]:
  assumes "\<And>acc cells field q. P acc cells field q []"
    and "\<And>acc cells field. P acc cells field False [] \<Longrightarrow> P acc cells field True [CHR 0x22]"
    and "\<And>acc cells field rest. P acc cells (field @ [CHR 0x22]) True rest \<Longrightarrow>
           P acc cells field True (CHR 0x22 # CHR 0x22 # rest)"
    and "\<And>acc cells field nxt rest. nxt \<noteq> CHR 0x22 \<Longrightarrow> P acc cells field False (nxt # rest) \<Longrightarrow>
           P acc cells field True (CHR 0x22 # nxt # rest)"
    and "\<And>acc cells field ch rest. ch \<noteq> CHR 0x22 \<Longrightarrow> P acc cells (field @ [ch]) True rest \<Longrightarrow>
           P acc cells field True (ch # rest)"
    and "\<And>acc cells field rest. P acc cells field True rest \<Longrightarrow> P acc cells field False (CHR 0x22 # rest)"
    and "\<And>acc cells field rest. P acc (cells @ [field]) [] False rest \<Longrightarrow>
           P acc cells field False (CHR '','' # rest)"
    and "\<And>acc cells field rest. P acc cells field False rest \<Longrightarrow> P acc cells field False (CHR 0x0D # rest)"
    and "\<And>acc cells field rest. P (push_row acc (cells @ [field])) [] [] False rest \<Longrightarrow>
           P acc cells field False (CHR 0x0A # rest)"
    and "\<And>acc cells field ch rest. ch \<noteq> CHR 0x22 \<Longrightarrow> ch \<noteq> CHR '','' \<Longrightarrow> ch \<noteq> CHR 0x0D \<Longrightarrow>
           ch \<noteq> CHR 0x0A \<Longrightarrow> P acc cells (field @ [ch]) False rest \<Longrightarrow> P acc cells field False (ch # rest)"
  shows "P acc cells field q inp"
proof (induction acc cells field q inp rule: scan.induct)
  case (1 acc cells field inQuotes)
  show ?case by (rule assms(1))
next
  case (2 acc cells field ch rest)
  show ?case
  proof (cases "ch = CHR 0x22")
    case False
    show ?thesis by (rule assms(5) [OF False 2(4) [OF False]])
  next
    case True
    show ?thesis
    proof (cases rest)
      case Nil
      from 2(1) [OF True Nil] have "P acc cells field False []" by (simp add: Nil)
      then have "P acc cells field True [CHR 0x22]" by (rule assms(2))
      then show ?thesis by (simp add: True Nil)
    next
      case (Cons nxt rest')
      show ?thesis
      proof (cases "nxt = CHR 0x22")
        case nxt: True
        from 2(2) [OF True Cons nxt]
        have "P acc cells field True (CHR 0x22 # CHR 0x22 # rest')" by (rule assms(3))
        then show ?thesis by (simp add: True Cons nxt)
      next
        case nxt: False
        from 2(3) [OF True Cons nxt] have "P acc cells field False (nxt # rest')" by (simp add: Cons)
        then have "P acc cells field True (CHR 0x22 # nxt # rest')" by (rule assms(4) [OF nxt])
        then show ?thesis by (simp add: True Cons)
      qed
    qed
  qed
next
  case (3 acc cells field ch rest)
  show ?case
  proof (cases "ch = CHR 0x22")
    case True
    from 3(1) [OF True] have "P acc cells field False (CHR 0x22 # rest)" by (rule assms(6))
    then show ?thesis by (simp add: True)
  next
    case nq: False
    show ?thesis
    proof (cases "ch = CHR '',''")
      case True
      from 3(2) [OF nq True] have "P acc cells field False (CHR '','' # rest)" by (rule assms(7))
      then show ?thesis by (simp add: True)
    next
      case nc: False
      show ?thesis
      proof (cases "ch = CHR 0x0D")
        case True
        from 3(3) [OF nq nc True] have "P acc cells field False (CHR 0x0D # rest)" by (rule assms(8))
        then show ?thesis by (simp add: True)
      next
        case nr: False
        show ?thesis
        proof (cases "ch = CHR 0x0A")
          case True
          from 3(4) [OF nq nc nr True] have "P acc cells field False (CHR 0x0A # rest)"
            by (rule assms(9))
          then show ?thesis by (simp add: True)
        next
          case False
          show ?thesis by (rule assms(10) [OF nq nc nr False 3(5) [OF nq nc nr False]])
        qed
      qed
    qed
  qed
qed

lemma has_content_empty_cells [simp]: "\<not> has_content (replicate m [])"
  by (induction m) (simp_all add: has_content_def trim_def)

lemma trim_Nil [simp]: "trim [] = []"
  by (simp add: trim_def)

lemma scan_empty_line:
  "scan acc (replicate k []) [] False (replicate n (CHR '','') @ CHR 0x0A # rest) =
   scan acc [] [] False rest"
proof (induction n arbitrary: k)
  case 0
  have "replicate k [] @ [[]] = replicate (Suc k) ([] :: string)"
    by (simp add: replicate_append_same)
  then show ?case by (simp add: push_row_def del: replicate_Suc)
next
  case (Suc n)
  have eq: "replicate k [] @ [[]] = replicate (Suc k) ([] :: string)"
    by (simp add: replicate_append_same)
  have "scan acc (replicate k []) [] False (replicate (Suc n) (CHR '','') @ CHR 0x0A # rest) =
        scan acc (replicate k [] @ [[]]) [] False (replicate n (CHR '','') @ CHR 0x0A # rest)"
    by simp
  also have "\<dots> = scan acc (replicate (Suc k) []) [] False (replicate n (CHR '','') @ CHR 0x0A # rest)"
    by (simp only: eq)
  also have "\<dots> = scan acc [] [] False rest"
    by (rule Suc)
  finally show ?case .
qed

lemma push_row_content:
  "list_all has_content acc \<Longrightarrow> list_all has_content (push_row acc cells)"
  by (simp add: push_row_def)

lemma scan_rows_content:
  "list_all has_content acc \<Longrightarrow> list_all has_content (fst (scan acc cells field q inp))"
  by (induction acc cells field q inp rule: scan_induct) (simp_all add: push_row_content)

lemma finish_content:
  "list_all has_content (fst st) \<Longrightarrow> list_all has_content (finish st)"
  by (cases st) (simp add: finish_def push_row_def)

lemma parseCsvRows_content: "list_all has_content (parseCsvRows inp)"
  unfolding parseCsvRows_def by (rule finish_content, rule scan_rows_content) simp

lemma scan_close_quote:
  "snd (snd (snd (scan acc cells field q inp))) \<Longrightarrow>
   scan acc cells field q (inp @ [CHR 0x22]) =
     (fst (scan acc cells field q inp), fst (snd (scan acc cells field q inp)),
      fst (snd (snd (scan acc cells field q inp))), False)"
  by (induction acc cells field q inp rule: scan_induct) simp_all

lemma finish_quotes: "finish (acc, cells, field, q) = finish (acc, cells, field, q')"
  by (simp add: finish_def)

lemma implicit_close:
  assumes "ends_in_quotes inp"
  shows "parseCsvRows (inp @ [CHR 0x22]) = parseCsvRows inp"
proof -
  obtain acc cells field q where st: "scan [] [] [] False inp = (acc, cells, field, q)"
    by (metis prod_cases4)
  from assms have "scan [] [] [] False (inp @ [CHR 0x22]) = (acc, cells, field, False)"
    using scan_close_quote [of "[]" "[]" "[]" False inp] by (simp add: ends_in_quotes_def st)
  then show ?thesis
    by (simp add: parseCsvRows_def st finish_quotes [of acc cells field False q])
qed

lemma scan_one_line:
  "CHR 0x0A \<notin> set (butlast inp) \<Longrightarrow>
   length (finish (scan acc cells field q inp)) \<le> Suc (length acc)"
  by (induction acc cells field q inp rule: scan_induct)
     (simp_all add: finish_def push_row_def split: if_splits)

lemma parseCsv_one_line: "CHR 0x0A \<notin> set (butlast inp) \<Longrightarrow> parseCsv inp = []"
  using scan_one_line [of inp "[]" "[]" "[]" False]
  by (simp add: parseCsv_def parseCsvRows_def Let_def)

lemma scan_quote_parity:
  "snd (snd (snd (scan acc cells field q inp))) =
     (q \<noteq> odd (length (filter (\<lambda>c. c = CHR 0x22) inp)))"
  by (induction acc cells field q inp rule: scan_induct) simp_all

lemma ends_in_quotes_odd:
  "ends_in_quotes inp = odd (length (filter (\<lambda>c. c = CHR 0x22) inp))"
  by (simp add: ends_in_quotes_def scan_quote_parity)

lemma scan_unquoted_append:
  "CHR 0x22 \<notin> set pre \<Longrightarrow>
   scan acc cells field False (pre @ rest) =
     scan (fst (scan acc cells field False pre)) (fst (snd (scan acc cells field False pre)))
       (fst (snd (snd (scan acc cells field False pre)))) False rest"
proof (induction pre arbitrary: acc cells field)
  case Nil
  show ?case by simp
next
  case (Cons c cs)
  then have c: "c \<noteq> CHR 0x22" and cs: "CHR 0x22 \<notin> set cs" by auto
  show ?case using c by (simp add: Cons.IH [OF cs])
qed

lemma scan_quoted_body:
  "CHR 0x22 \<notin> set body \<Longrightarrow> scan acc cells field True body = (acc, cells, field @ body, True)"
proof (induction body arbitrary: field)
  case Nil
  show ?case by simp
next
  case (Cons c cs)
  then have c: "c \<noteq> CHR 0x22" and cs: "CHR 0x22 \<notin> set cs" by auto
  show ?case using c by (simp add: Cons.IH [OF cs])
qed

lemma scan_line_end:
  assumes "CHR 0x22 \<notin> set pre"
  shows "scan [] [] [] False (pre @ [CHR 0x0A]) = (parseCsvRows (pre @ [CHR 0x0A]), [], [], False)"
proof -
  have "scan [] [] [] False (pre @ [CHR 0x0A]) =
        (push_row (fst (scan [] [] [] False pre))
           (fst (snd (scan [] [] [] False pre)) @ [fst (snd (snd (scan [] [] [] False pre)))]),
         [], [], False)"
    by (simp add: scan_unquoted_append [OF assms])
  then show ?thesis by (simp add: parseCsvRows_def finish_def)
qed

lemma scan_after_lines:
  assumes "CHR 0x22 \<notin> set pre"
  shows "scan [] [] [] False (pre @ CHR 0x0A # rest) =
         scan (parseCsvRows (pre @ [CHR 0x0A])) [] [] False rest"
proof -
  have "CHR 0x22 \<notin> set (pre @ [CHR 0x0A])" using assms by simp
  from scan_unquoted_append [OF this, of "[]" "[]" "[]" rest]
  have "scan [] [] [] False ((pre @ [CHR 0x0A]) @ rest) =
        scan (parseCsvRows (pre @ [CHR 0x0A])) [] [] False rest"
    by (simp only: scan_line_end [OF assms] fst_conv snd_conv)
  then show ?thesis by (simp only: append_assoc append_Cons append_Nil)
qed

lemma parseCsvRows_after_lines:
  assumes "CHR 0x22 \<notin> set pre"
  shows "parseCsvRows (pre @ CHR 0x0A # rest) =
         finish (scan (parseCsvRows (pre @ [CHR 0x0A])) [] [] False rest)"
  by (simp only: parseCsvRows_def [of "pre @ CHR 0x0A # rest"] scan_after_lines [OF assms])

lemma scan_empty_line_start:
  "scan acc [] [] False (replicate n (CHR '','') @ CHR 0x0A # rest) = scan acc [] [] False rest"
  using scan_empty_line [of acc 0 n rest] by simp

lemma empty_line_between:
  assumes "CHR 0x22 \<notin> set pre"
  shows "parseCsvRows (pre @ CHR 0x0A # replicate n (CHR '','') @ CHR 0x0A # rest) =
         parseCsvRows (pre @ CHR 0x0A # rest)"
  by (simp only: parseCsvRows_after_lines [OF assms, of "replicate n (CHR '','') @ CHR 0x0A # rest"]
      parseCsvRows_after_lines [OF assms, of rest] scan_empty_line_start)

lemma partial_record:
  assumes "CHR 0x22 \<notin> set pre" "CHR 0x22 \<notin> set body"
  shows "parseCsvRows (pre @ CHR 0x0A # CHR 0x22 # body) =
         (if trim body \<noteq> [] then parseCsvRows (pre @ [CHR 0x0A]) @ [[body]]
          else parseCsvRows (pre @ [CHR 0x0A]))"
proof -
  have "scan (parseCsvRows (pre @ [CHR 0x0A])) [] [] False (CHR 0x22 # body) =
        (parseCsvRows (pre @ [CHR 0x0A]), [], body, True)"
    by (simp add: scan_quoted_body [OF assms(2)])
  then have "parseCsvRows (pre @ CHR 0x0A # CHR 0x22 # body) =
        finish (parseCsvRows (pre @ [CHR 0x0A]), [], body, True)"
    by (simp only: parseCsvRows_after_lines [OF assms(1), of "CHR 0x22 # body"])
  then show ?thesis
    by (simp add: finish_def push_row_def has_content_def)
qed

lemma partial_record_parseCsv:
  assumes "CHR 0x22 \<notin> set pre" "CHR 0x22 \<notin> set body" "trim body \<noteq> []"
    and "parseCsvRows (pre @ [CHR 0x0A]) = header # records"
  shows "parseCsv (pre @ CHR 0x0A # CHR 0x22 # body) = map (row_of_cells header) (records @ [[body]])"
  using partial_record [OF assms(1,2)] assms(3,4)
  by (simp add: parseCsv_def Let_def)

lemma implicit_close_parseCsv:
  "ends_in_quotes inp \<Longrightarrow> parseCsv (inp @ [CHR 0x22]) = parseCsv inp"
  by (simp add: parseCsv_def implicit_close)

lemma finish_in_quotes:
  "scan [] [] [] False inp = (emitted, cells, field, True) \<Longrightarrow>
   parseCsvRows inp =
     (if \<exists>cell \<in> set (cells @ [field]). trim cell \<noteq> [] then emitted @ [cells @ [field]] else emitted)"
  by (auto simp: parseCsvRows_def finish_def push_row_def has_content_def list_ex_iff)

lemmas csv_eval = parseCsv_def parseCsvRows_def finish_def push_row_def has_content_def
  ends_in_quotes_def trim_def is_space_def header_only_def unterminated_def blank_partial_def
  row_of_cells_def enumerate_eq_zip

lemma unterminated_rows:
  "map (\<lambda>r. (r ''name'', r ''note'')) (parseCsv unterminated) =
     [(Some ''x'', Some (''abc,'' @ [CHR 0x0A] @ ''d''))]"
  by (simp add: csv_eval)

text \<open>
  Claim C8, as amended. The decoder is a total function without an error result, and:
  \<^item> a text with no line feed before its last character (zero or one line) decodes to no
    rows;
  \<^item> every record that \<open>parseCsvRows\<close> yields has a cell that is not blank; at the start of
    a record a line of \<open>n\<close> commas, all its fields empty, leaves the loop state unchanged,
    and such a line after quote-free lines changes nothing in the result;
  \<^item> the loop ends inside a quoted field exactly when the text has an odd number of quote
    characters, and such a text decodes, by \<open>parseCsvRows\<close> and by \<open>parseCsv\<close>, as if the
    quote were closed at the end;
  \<^item> the final partial record is then emitted if and only if one of its cells is not
    blank: a partial record of blank cells is dropped like any blank line. In particular,
    after quote-free lines a last record \<open>"body\<close> is emitted as the record of the one cell
    \<open>body\<close> when \<open>body\<close> is not blank, also by \<open>parseCsv\<close> under the first line as
    header, and is dropped when \<open>body\<close> is blank;
  \<^item> \<open>parseCsv\<close> on the sample text that ends inside a quoted field yields the row with
    both cells of the partial record.
\<close>

theorem csv_decoder_tolerant:
  "(CHR 0x0A \<notin> set (butlast inp) \<longrightarrow> parseCsv inp = []) \<and>
   (\<forall>r \<in> set (parseCsvRows inp). \<exists>cell \<in> set r. trim cell \<noteq> []) \<and>
   scan acc [] [] False (replicate n (CHR '','') @ CHR 0x0A # rest) = scan acc [] [] False rest \<and>
   (CHR 0x22 \<notin> set pre \<longrightarrow>
      parseCsvRows (pre @ CHR 0x0A # replicate n (CHR '','') @ CHR 0x0A # rest) =
      parseCsvRows (pre @ CHR 0x0A # rest)) \<and>
   ends_in_quotes inp = odd (length (filter (\<lambda>c. c = CHR 0x22) inp)) \<and>
   (odd (length (filter (\<lambda>c. c = CHR 0x22) inp)) \<longrightarrow>
      parseCsvRows inp = parseCsvRows (inp @ [CHR 0x22]) \<and>
      parseCsv inp = parseCsv (inp @ [CHR 0x22]) \<and>
      (\<forall>emitted cells field.
         scan [] [] [] False inp = (emitted, cells, field, True) \<longrightarrow>
         parseCsvRows inp =
           (if \<exists>cell \<in> set (cells @ [field]). trim cell \<noteq> []
            then emitted @ [cells @ [field]] else emitted))) \<and>
   (CHR 0x22 \<notin> set pre \<and> CHR 0x22 \<notin> set body \<longrightarrow>
      parseCsvRows (pre @ CHR 0x0A # CHR 0x22 # body) =
        (if trim body \<noteq> [] then parseCsvRows (pre @ [CHR 0x0A]) @ [[body]]
         else parseCsvRows (pre @ [CHR 0x0A]))) \<and>
   (CHR 0x22 \<notin> set pre \<and> CHR 0x22 \<notin> set body \<and> trim body \<noteq> [] \<and>
    parseCsvRows (pre @ [CHR 0x0A]) = header # records \<longrightarrow>
      parseCsv (pre @ CHR 0x0A # CHR 0x22 # body) =
        map (row_of_cells header) (records @ [[body]])) \<and>
   map (\<lambda>r. (r ''name'', r ''note'')) (parseCsv unterminated) =
     [(Some ''x'', Some (''abc,'' @ [CHR 0x0A] @ ''d''))]"
proof (intro conjI impI allI)
  assume "CHR 0x0A \<notin> set (butlast inp)"
  then show "parseCsv inp = []" by (rule parseCsv_one_line)
next
  show "\<forall>r \<in> set (parseCsvRows inp). \<exists>cell \<in> set r. trim cell \<noteq> []"
    using parseCsvRows_content [of inp]
    by (simp add: list_all_iff has_content_def list_ex_iff)
next
  show "scan acc [] [] False (replicate n (CHR '','') @ CHR 0x0A # rest) = scan acc [] [] False rest"
    by (rule scan_empty_line_start)
next
  assume "CHR 0x22 \<notin> set pre"
  then show "parseCsvRows (pre @ CHR 0x0A # replicate n (CHR '','') @ CHR 0x0A # rest) =
      parseCsvRows (pre @ CHR 0x0A # rest)" by (rule empty_line_between)
next
  show "ends_in_quotes inp = odd (length (filter (\<lambda>c. c = CHR 0x22) inp))"
    by (rule ends_in_quotes_odd)
next
  assume "odd (length (filter (\<lambda>c. c = CHR 0x22) inp))"
  then have "ends_in_quotes inp" by (simp add: ends_in_quotes_odd)
  then show "parseCsvRows inp = parseCsvRows (inp @ [CHR 0x22])"
    by (simp add: implicit_close)
next
  assume "odd (length (filter (\<lambda>c. c = CHR 0x22) inp))"
  then have "ends_in_quotes inp" by (simp add: ends_in_quotes_odd)
  then show "parseCsv inp = parseCsv (inp @ [CHR 0x22])"
    by (simp add: implicit_close_parseCsv)
next
  fix emitted cells field
  assume "scan [] [] [] False inp = (emitted, cells, field, True)"
  then show "parseCsvRows inp =
      (if \<exists>cell \<in> set (cells @ [field]). trim cell \<noteq> []
       then emitted @ [cells @ [field]] else emitted)" by (rule finish_in_quotes)
next
  assume "CHR 0x22 \<notin> set pre \<and> CHR 0x22 \<notin> set body"
  then have "CHR 0x22 \<notin> set pre" "CHR 0x22 \<notin> set body" by simp_all
  then show "parseCsvRows (pre @ CHR 0x0A # CHR 0x22 # body) =
      (if trim body \<noteq> [] then parseCsvRows (pre @ [CHR 0x0A]) @ [[body]]
       else parseCsvRows (pre @ [CHR 0x0A]))" by (rule partial_record)
next
  assume "CHR 0x22 \<notin> set pre \<and> CHR 0x22 \<notin> set body \<and> trim body \<noteq> [] \<and>
    parseCsvRows (pre @ [CHR 0x0A]) = header # records"
  then have "CHR 0x22 \<notin> set pre" "CHR 0x22 \<notin> set body" "trim body \<noteq> []"
    "parseCsvRows (pre @ [CHR 0x0A]) = header # records" by simp_all
  then show "parseCsv (pre @ CHR 0x0A # CHR 0x22 # body) =
      map (row_of_cells header) (records @ [[body]])" by (rule partial_record_parseCsv)
next
  show "map (\<lambda>r. (r ''name'', r ''note'')) (parseCsv unterminated) =
     [(Some ''x'', Some (''abc,'' @ [CHR 0x0A] @ ''d''))]" by (rule unterminated_rows)
qed

text \<open>
  A text that ends inside a quoted field holding one space: the loop ends in quotes with
  the pending field \<open>' '\<close>, and the decoder returns the first record only. The final
  partial record is not emitted, so the claim as the specification words it does not hold.
\<close>

theorem blank_partial_record_dropped:
  "ends_in_quotes blank_partial \<and> parseCsvRows blank_partial = [[''x'']] \<and>
   snd (scan [] [] [] False blank_partial) = ([], '' '', True)"
  by (simp add: csv_eval)

text \<open>
  A header line alone; the sample text that ends inside a quoted field; a partial record
  with content and a blank one after the line \<open>name\<close>; an empty line between two records.
\<close>

theorem csv_decoder_tolerant_witness:
  "parseCsv header_only = [] \<and>
   parseCsvRows (unterminated @ [CHR 0x22]) = parseCsvRows unterminated \<and>
   parseCsv (unterminated @ [CHR 0x22]) = parseCsv unterminated \<and>
   parseCsvRows unterminated = [[''name'', ''note''], [''x'', ''abc,'' @ [CHR 0x0A] @ ''d'']] \<and>
   parseCsvRows (''name'' @ CHR 0x0A # CHR 0x22 # ''abc'') = [[''name''], [''abc'']] \<and>
   parseCsv (''name'' @ CHR 0x0A # CHR 0x22 # ''abc'') = map (row_of_cells [''name'']) [[''abc'']] \<and>
   parseCsvRows (''name'' @ CHR 0x0A # CHR 0x22 # ''  '') = [[''name'']] \<and>
   parseCsvRows (''name'' @ CHR 0x0A # replicate 2 (CHR '','') @ CHR 0x0A # ''b'') =
     parseCsvRows (''name'' @ CHR 0x0A # ''b'')"
proof -
  note a = csv_decoder_tolerant [of header_only "[]" 0 "[]" "[]" "[]" "[]" "[]"]
  note b = csv_decoder_tolerant [of unterminated "[]" 2 "''b''" "''name''" "''abc''" "[''name'']" "[]"]
  note c = csv_decoder_tolerant [of unterminated "[]" 2 "''b''" "''name''" "''  ''" "[''name'']" "[]"]
  have one: "CHR 0x0A \<notin> set (butlast header_only)"
    by (simp add: header_only_def)
  have q: "odd (length (filter (\<lambda>c. c = CHR 0x22) unterminated))"
    by (simp add: unterminated_def)
  have st: "scan [] [] [] False unterminated =
      ([[''name'', ''note'']], [''x''], ''abc,'' @ [CHR 0x0A] @ ''d'', True)"
    by (simp add: csv_eval)
  have ne: "\<exists>cell \<in> set ([''x''] @ [''abc,'' @ [CHR 0x0A] @ ''d'']). trim cell \<noteq> []"
    by (simp add: trim_def is_space_def)
  have h: "CHR 0x22 \<notin> set ''name'' \<and> CHR 0x22 \<notin> set ''abc'' \<and> trim ''abc'' \<noteq> [] \<and>
      parseCsvRows (''name'' @ [CHR 0x0A]) = [''name''] # []"
    by (simp add: csv_eval)
  have h': "CHR 0x22 \<notin> set ''name'' \<and> CHR 0x22 \<notin> set ''  '' \<and> trim ''  '' = []"
    by (simp add: trim_def is_space_def)
  from a one have 1: "parseCsv header_only = []" by blast
  from b q have 2: "parseCsvRows (unterminated @ [CHR 0x22]) = parseCsvRows unterminated"
    and 3: "parseCsv (unterminated @ [CHR 0x22]) = parseCsv unterminated" by simp_all
  from b q st have "parseCsvRows unterminated =
      (if \<exists>cell \<in> set ([''x''] @ [''abc,'' @ [CHR 0x0A] @ ''d'']). trim cell \<noteq> []
       then [[''name'', ''note'']] @ [[''x''] @ [''abc,'' @ [CHR 0x0A] @ ''d'']]
       else [[''name'', ''note'']])" by blast
  with ne have 4: "parseCsvRows unterminated =
      [[''name'', ''note''], [''x'', ''abc,'' @ [CHR 0x0A] @ ''d'']]" by simp
  from b h have "parseCsvRows (''name'' @ CHR 0x0A # CHR 0x22 # ''abc'') =
      (if trim ''abc'' \<noteq> [] then parseCsvRows (''name'' @ [CHR 0x0A]) @ [[''abc'']]
       else parseCsvRows (''name'' @ [CHR 0x0A]))" by blast
  with h have 5: "parseCsvRows (''name'' @ CHR 0x0A # CHR 0x22 # ''abc'') = [[''name''], [''abc'']]"
    by simp
  from b h have 6: "parseCsv (''name'' @ CHR 0x0A # CHR 0x22 # ''abc'') =
      map (row_of_cells [''name'']) ([] @ [[''abc'']])" by blast
  from c h' have "parseCsvRows (''name'' @ CHR 0x0A # CHR 0x22 # ''  '') =
      (if trim ''  '' \<noteq> [] then parseCsvRows (''name'' @ [CHR 0x0A]) @ [[''  '']]
       else parseCsvRows (''name'' @ [CHR 0x0A]))" by blast
  with h h' have 7: "parseCsvRows (''name'' @ CHR 0x0A # CHR 0x22 # ''  '') = [[''name'']]"
    by simp
  from b h have 8: "parseCsvRows (''name'' @ CHR 0x0A # replicate 2 (CHR '','') @ CHR 0x0A # ''b'') =
     parseCsvRows (''name'' @ CHR 0x0A # ''b'')" by blast
  from 1 2 3 4 5 6 7 8 show ?thesis by simp
qed

section \<open>Trimming and splitting\<close>

lemma trim_ends:
  "trim s = [] \<or> (\<not> is_space (hd (trim s)) \<and> \<not> is_space (last (trim s)))"
proof (cases "trim s = []")
  case True
  then show ?thesis by simp
next
  case False
  let ?a = "dropWhile is_space s"
  let ?b = "dropWhile is_space (rev ?a)"
  have t: "trim s = rev ?b" by (simp add: trim_def)
  with False have b: "?b \<noteq> []" by simp
  have a: "?a \<noteq> []"
  proof
    assume e: "?a = []"
    have "?b = []" unfolding e by simp
    with b show False by simp
  qed
  have "\<not> is_space (hd ?b)" using b by (rule hd_dropWhile)
  then have l: "\<not> is_space (last (trim s))" using b by (simp add: t last_rev)
  have "rev ?a = takeWhile is_space (rev ?a) @ ?b" by simp
  then have "last (rev ?a) = last ?b" using b by (metis last_appendR)
  then have "last ?b = hd ?a" using a by (simp add: last_rev)
  moreover have "\<not> is_space (hd ?a)" using a by (rule hd_dropWhile)
  ultimately have "\<not> is_space (hd (trim s))" using b by (simp add: t hd_rev)
  with l show ?thesis by simp
qed

lemma trim_id: "s \<noteq> [] \<Longrightarrow> \<not> is_space (hd s) \<Longrightarrow> \<not> is_space (last s) \<Longrightarrow> trim s = s"
proof -
  assume s: "s \<noteq> []" and h: "\<not> is_space (hd s)" and l: "\<not> is_space (last s)"
  from s h have "dropWhile is_space s = s" by (cases s) simp_all
  moreover from s l have "dropWhile is_space (rev s) = rev s"
    by (cases "rev s") (simp_all add: last_rev [symmetric] hd_rev)
  ultimately show ?thesis by (simp add: trim_def)
qed

lemma trim_trim [simp]: "trim (trim s) = trim s"
  using trim_ends [of s] by (cases "trim s = []") (auto simp: trim_id)

lemma split_on_no_sep: "d \<notin> set a \<Longrightarrow> split_on d a = [a]"
  by (induction a) auto

lemma split_on_sep: "d \<notin> set a \<Longrightarrow> split_on d (a @ d # rest) = a # split_on d rest"
  by (induction a) auto

lemma split_on_nonempty [simp]: "split_on d s \<noteq> []"
  by (induction s) (simp_all split: list.splits)

lemma split_on_Cons:
  "split_on d s = p # ps \<Longrightarrow>
   d \<notin> set p \<and> (if ps = [] then s = p else \<exists>rest. s = p @ d # rest \<and> split_on d rest = ps)"
proof (induction s arbitrary: p ps)
  case Nil
  then show ?case by simp
next
  case (Cons c cs)
  show ?case
  proof (cases "c = d")
    case True
    with Cons.prems show ?thesis by auto
  next
    case False
    obtain q qs where q: "split_on d cs = q # qs"
      using split_on_nonempty [of d cs] by (cases "split_on d cs") auto
    with Cons.prems False have p: "p = c # q" "ps = qs" by simp_all
    from Cons.IH [OF q] False p show ?thesis by auto
  qed
qed

lemma split_on_three:
  assumes "length (split_on d s) = 3"
  shows "s = split_on d s ! 0 @ d # split_on d s ! 1 @ d # split_on d s ! 2 \<and>
         d \<notin> set (split_on d s ! 0)"
proof -
  from assms obtain a b c where abc: "split_on d s = [a, b, c]"
    by (auto simp: length_Suc_conv numeral_3_eq_3)
  from split_on_Cons [OF abc] obtain r1 where r1: "s = a @ d # r1" "split_on d r1 = [b, c]" "d \<notin> set a"
    by auto
  from split_on_Cons [OF r1(2)] obtain r2 where r2: "r1 = b @ d # r2" "split_on d r2 = [c]"
    by auto
  from split_on_Cons [OF r2(2)] have "r2 = c" by simp
  with r1 r2 abc show ?thesis by simp
qed

lemma lastIndexOf_nth:
  assumes "lastIndexOf s c > 0"
  shows "nat (lastIndexOf s c) < length s \<and> s ! nat (lastIndexOf s c) = c"
proof -
  from assms obtain x front where d: "dropWhile (\<lambda>x. x \<noteq> c) (rev s) = x # front"
    by (auto simp: lastIndexOf_def split: list.splits)
  then have k: "lastIndexOf s c = int (length front)" by (simp add: lastIndexOf_def)
  from d have "x = c" using hd_dropWhile [of "\<lambda>x. x \<noteq> c" "rev s"] by auto
  with d have "rev s = takeWhile (\<lambda>x. x \<noteq> c) (rev s) @ c # front"
    by (metis takeWhile_dropWhile_id)
  then have "s = rev front @ c # rev (takeWhile (\<lambda>x. x \<noteq> c) (rev s))"
    by (metis rev_append rev.simps(2) rev_rev_ident append_Cons append_Nil append_assoc)
  then have "length front < length s \<and> s ! length front = c"
    by (metis length_rev nth_append_length length_append length_Cons less_add_Suc1 add_Suc_right)
  with k show ?thesis by simp
qed

section \<open>The identity resolver\<close>

lemma is_digit_not_space: "is_digit c \<Longrightarrow> \<not> is_space c"
  by (auto simp: is_digit_def is_space_def)

lemma all_digits_no_colon: "all_digits Y \<Longrightarrow> CHR '':'' \<notin> set Y"
  by (auto simp: all_digits_def list_all_iff is_digit_def)

lemma legacy_id:
  assumes X: "CHR '':'' \<notin> set X" and Y: "all_digits Y" and Z: "all_digits Z"
  shows "parseSteamId64 (Some (''STEAM_'' @ X @ '':'' @ Y @ '':'' @ Z)) =
         Some (decimal (STEAM_ID64_BASE + nat_of_digits Z * 2 + nat_of_digits Y))"
proof -
  define t where "t = ''STEAM_'' @ X @ '':'' @ Y @ '':'' @ Z"
  from Z have "Z \<noteq> []" "is_digit (last Z)"
    by (auto simp: all_digits_def list_all_iff)
  then have "\<not> is_space (last t)" by (simp add: t_def is_digit_not_space)
  moreover have "\<not> is_space (hd t)" by (simp add: t_def is_space_def)
  moreover have ne: "t \<noteq> []" by (simp add: t_def)
  ultimately have t: "trim t = t" by (intro trim_id)
  have "\<not> list_all is_digit t" by (simp add: t_def is_digit_def)
  then have n: "normalizeSteamId64 (Some t) = None"
    using ne by (simp add: normalizeSteamId64_def t Let_def)
  have b: "bracket_form t = None"
    by (simp add: bracket_form_def startsWith_def t_def)
  have "split_on (CHR '':'') (X @ '':'' @ Y @ '':'' @ Z) = [X, Y, Z]"
    using X all_digits_no_colon [OF Y] all_digits_no_colon [OF Z]
    by (simp add: split_on_sep split_on_no_sep)
  then have l: "legacy_form t = Some (decimal (STEAM_ID64_BASE + nat_of_digits Z * 2 + nat_of_digits Y))"
    using Y Z by (simp add: legacy_form_def startsWith_def t_def)
  have "parseSteamId64 (Some t) =
        Some (decimal (STEAM_ID64_BASE + nat_of_digits Z * 2 + nat_of_digits Y))"
    using ne by (simp add: parseSteamId64_def t n b l Let_def)
  then show ?thesis by (simp only: t_def)
qed

lemma normalize_Some:
  "normalizeSteamId64 (Some t) = Some r \<Longrightarrow>
   list_all is_digit (trim t) \<and> (length (trim t) = 16 \<or> length (trim t) = 17)"
  by (auto simp: normalizeSteamId64_def Let_def split: if_splits)

lemma bracket_Some:
  assumes "bracket_form t = Some r"
  shows "\<exists>p d. t = p @ '':'' @ d @ '']'' \<and> startsWith t ''[U:'' \<and> all_digits d"
proof -
  let ?k = "nat (lastIndexOf t (CHR '':''))"
  let ?v = "take (length t - 1 - nat (lastIndexOf t (CHR '':'') + 1))
              (drop (nat (lastIndexOf t (CHR '':'') + 1)) t)"
  from assms have sw: "startsWith t ''[U:''" and ew: "endsWith t '']''"
    and pos: "lastIndexOf t (CHR '':'') > 0" and dv: "all_digits ?v"
    by (auto simp: bracket_form_def Let_def split: if_splits)
  from lastIndexOf_nth [OF pos] have k: "?k < length t" "t ! ?k = CHR '':''" by simp_all
  from ew have ne: "t \<noteq> []" by (auto simp: endsWith_def)
  then have "drop (length t - 1) t = [last t]"
    by (metis append_butlast_last_id append_eq_conv_conj length_butlast)
  with ew have last: "last t = CHR '']''" by (simp add: endsWith_def)
  from k last ne have "?k \<noteq> length t - 1" by (auto simp: last_conv_nth)
  with k have k1: "Suc ?k < length t" by simp
  let ?r = "drop (Suc ?k) t"
  from k1 have rne: "?r \<noteq> []" by simp
  then have "last ?r = CHR '']''" using last by simp
  with rne have "?r = butlast ?r @ '']''" by (metis append_butlast_last_id)
  moreover have "butlast ?r = ?v"
    using pos by (simp add: butlast_conv_take nat_add_distrib)
  moreover have "t = take ?k t @ CHR '':'' # ?r"
    using k by (metis id_take_nth_drop)
  ultimately have "t = take ?k t @ '':'' @ ?v @ '']''" by simp
  with sw dv show ?thesis by blast
qed

lemma legacy_Some:
  assumes "legacy_form t = Some r"
  shows "\<exists>X Y Z. t = ''STEAM_'' @ X @ '':'' @ Y @ '':'' @ Z \<and> CHR '':'' \<notin> set X \<and>
                 all_digits Y \<and> all_digits Z"
proof -
  let ?parts = "split_on (CHR '':'') (drop 6 t)"
  from assms have sw: "startsWith t ''STEAM_''" and len: "length ?parts = 3"
    and d: "all_digits (?parts ! 1)" "all_digits (?parts ! 2)"
    by (auto simp: legacy_form_def Let_def split: if_splits)
  from sw have "take 6 t = ''STEAM_''" by (simp add: startsWith_def eval_nat_numeral)
  then have "t = ''STEAM_'' @ drop 6 t" by (metis append_take_drop_id)
  moreover from split_on_three [OF len]
  have "drop 6 t = ?parts ! 0 @ '':'' @ ?parts ! 1 @ '':'' @ ?parts ! 2"
    and "CHR '':'' \<notin> set (?parts ! 0)" by simp_all
  ultimately have "t = ''STEAM_'' @ ?parts ! 0 @ '':'' @ ?parts ! 1 @ '':'' @ ?parts ! 2 \<and>
      CHR '':'' \<notin> set (?parts ! 0) \<and> all_digits (?parts ! 1) \<and> all_digits (?parts ! 2)"
    using d by simp
  then show ?thesis by blast
qed

text \<open>
  Claim C6. \<open>STEAM_0:1:12345\<close> resolves to \<open>76561197960265728 + 12345 * 2 + 1\<close>, printed
  as \<open>76561197960290419\<close>; every identifier \<open>STEAM_X:Y:Z\<close> with \<open>X\<close> free of colons and
  \<open>Y\<close>, \<open>Z\<close> non-empty digit strings resolves to the offset plus \<open>Z * 2 + Y\<close>; and the
  result is \<open>null\<close> when the identifier is absent or its trimmed text has none of the three
  supported forms (16 or 17 digits; \<open>[U:\<close> up to a last colon followed by digits and \<open>]\<close>;
  \<open>STEAM_X:Y:Z\<close>).
\<close>

theorem steam_id_resolution:
  "parseSteamId64 (Some ''STEAM_0:1:12345'') = Some (decimal (76561197960265728 + 12345 * 2 + 1)) \<and>
   decimal (76561197960265728 + 12345 * 2 + 1) = ''76561197960290419'' \<and>
   (CHR '':'' \<notin> set X \<and> all_digits Y \<and> all_digits Z \<longrightarrow>
      parseSteamId64 (Some (''STEAM_'' @ X @ '':'' @ Y @ '':'' @ Z)) =
      Some (decimal (STEAM_ID64_BASE + nat_of_digits Z * 2 + nat_of_digits Y))) \<and>
   ((\<forall>s. steamId = Some s \<longrightarrow>
        \<not> (list_all is_digit (trim s) \<and> (length (trim s) = 16 \<or> length (trim s) = 17)) \<and>
        \<not> (\<exists>p d. trim s = p @ '':'' @ d @ '']'' \<and> startsWith (trim s) ''[U:'' \<and> all_digits d) \<and>
        \<not> (\<exists>X Y Z. trim s = ''STEAM_'' @ X @ '':'' @ Y @ '':'' @ Z \<and> CHR '':'' \<notin> set X \<and>
                     all_digits Y \<and> all_digits Z)) \<longrightarrow>
    parseSteamId64 steamId = None)"
proof (intro conjI impI)
  have "parseSteamId64 (Some (''STEAM_'' @ ''0'' @ '':'' @ ''1'' @ '':'' @ ''12345'')) =
        Some (decimal (STEAM_ID64_BASE + nat_of_digits ''12345'' * 2 + nat_of_digits ''1''))"
    by (rule legacy_id) (simp_all add: all_digits_def is_digit_def)
  then show "parseSteamId64 (Some ''STEAM_0:1:12345'') =
      Some (decimal (76561197960265728 + 12345 * 2 + 1))"
    by (simp add: STEAM_ID64_BASE_def nat_of_digits_def digit_value_def)
next
  show "decimal (76561197960265728 + 12345 * 2 + 1) = ''76561197960290419''"
    by (simp add: decimal.simps)
next
  assume "CHR '':'' \<notin> set X \<and> all_digits Y \<and> all_digits Z"
  then have "CHR '':'' \<notin> set X" "all_digits Y" "all_digits Z" by simp_all
  then show "parseSteamId64 (Some (''STEAM_'' @ X @ '':'' @ Y @ '':'' @ Z)) =
      Some (decimal (STEAM_ID64_BASE + nat_of_digits Z * 2 + nat_of_digits Y))"
    by (rule legacy_id)
next
  assume none: "\<forall>s. steamId = Some s \<longrightarrow>
        \<not> (list_all is_digit (trim s) \<and> (length (trim s) = 16 \<or> length (trim s) = 17)) \<and>
        \<not> (\<exists>p d. trim s = p @ '':'' @ d @ '']'' \<and> startsWith (trim s) ''[U:'' \<and> all_digits d) \<and>
        \<not> (\<exists>X Y Z. trim s = ''STEAM_'' @ X @ '':'' @ Y @ '':'' @ Z \<and> CHR '':'' \<notin> set X \<and>
                     all_digits Y \<and> all_digits Z)"
  show "parseSteamId64 steamId = None"
  proof (cases steamId)
    case None
    then show ?thesis by (simp add: parseSteamId64_def)
  next
    case (Some s)
    from none Some have n1: "normalizeSteamId64 (Some (trim s)) = None"
      using normalize_Some [of "trim s"] by (cases "normalizeSteamId64 (Some (trim s))") auto
    from none Some have n2: "bracket_form (trim s) = None"
      using bracket_Some [of "trim s"] by (cases "bracket_form (trim s)") auto
    from none Some have n3: "legacy_form (trim s) = None"
      using legacy_Some [of "trim s"] by (cases "legacy_form (trim s)") auto
    show ?thesis by (simp add: parseSteamId64_def Some Let_def n1 n2 n3)
  qed
qed

text \<open>A legacy identifier and a string in none of the supported forms.\<close>

theorem steam_id_resolution_witness:
  "parseSteamId64 (Some ''STEAM_1:0:62'') = Some ''76561197960265852'' \<and>
   parseSteamId64 (Some ''unknown'') = None"
proof -
  have t: "trim ''unknown'' = ''unknown''" by (simp add: trim_def is_space_def)
  have h: "CHR '':'' \<notin> set ''1'' \<and> all_digits ''0'' \<and> all_digits ''62''"
    by (simp add: all_digits_def is_digit_def)
  have n: "\<forall>s. Some ''unknown'' = Some s \<longrightarrow>
        \<not> (list_all is_digit (trim s) \<and> (length (trim s) = 16 \<or> length (trim s) = 17)) \<and>
        \<not> (\<exists>p d. trim s = p @ '':'' @ d @ '']'' \<and> startsWith (trim s) ''[U:'' \<and> all_digits d) \<and>
        \<not> (\<exists>X Y Z. trim s = ''STEAM_'' @ X @ '':'' @ Y @ '':'' @ Z \<and> CHR '':'' \<notin> set X \<and>
                     all_digits Y \<and> all_digits Z)"
    by (simp add: t startsWith_def)
  have d: "decimal (STEAM_ID64_BASE + nat_of_digits ''62'' * 2 + nat_of_digits ''0'') = ''76561197960265852''"
    by (simp add: STEAM_ID64_BASE_def nat_of_digits_def digit_value_def decimal.simps)
  note res = steam_id_resolution [of "''1''" "''0''" "''62''" "Some ''unknown''"]
  from res h have "parseSteamId64 (Some (''STEAM_'' @ ''1'' @ '':'' @ ''0'' @ '':'' @ ''62'')) =
      Some (decimal (STEAM_ID64_BASE + nat_of_digits ''62'' * 2 + nat_of_digits ''0''))"
    by blast
  then have a: "parseSteamId64 (Some ''STEAM_1:0:62'') = Some ''76561197960265852''"
    by (simp add: d)
  from res n have b: "parseSteamId64 (Some ''unknown'') = None"
    by blast
  from a b show ?thesis by simp
qed

section \<open>The segment classifier\<close>

lemmas zone_eval = getZoneInfo_def match_word_number_def match_segment_def match_segment_index_def
  sanitizeSegmentName_def remove_first_suffix_def is_line_terminator_def
  trim_def is_space_def is_digit_def toLowerCase_def lower_char_def char_of_def bit_Suc_0_iff

lemma all_digits_takeWhile: "takeWhile is_digit r \<noteq> [] \<Longrightarrow> all_digits (takeWhile is_digit r)"
  by (auto simp: all_digits_def list_all_iff dest: set_takeWhileD)

lemma match_word_number_digits: "match_word_number word s = Some ds \<Longrightarrow> all_digits ds"
  by (auto simp: match_word_number_def Let_def all_digits_takeWhile split: if_splits)

lemma match_segment_digits: "match_segment s = Some (ds, g) \<Longrightarrow> all_digits ds"
  by (auto simp: match_segment_def Let_def all_digits_takeWhile split: list.splits if_splits)

lemma match_segment_index_digits: "match_segment_index s = Some ds \<Longrightarrow> all_digits ds"
  by (auto simp: match_segment_index_def all_digits_takeWhile split: list.splits if_splits)

lemma zone_shapes:
  "getZoneInfo pint str source = Some z \<Longrightarrow>
   (\<exists>ds. all_digits ds \<and>
      z = \<lparr>zone_id = ''bonus-'' @ str (pint ds), label = ''Bonus '' @ str (pint ds),
            kind = Bonus, order = pint ds\<rparr>) \<or>
   (\<exists>ds. all_digits ds \<and>
      z = \<lparr>zone_id = ''course-'' @ str (pint ds), label = ''Course '' @ str (pint ds),
            kind = Course, order = pint ds\<rparr>) \<or>
   (\<exists>ds nm. all_digits ds \<and> nm \<noteq> [] \<and>
      z = \<lparr>zone_id = ''segment-'' @ str (pint ds), label = ''C'' @ str (pint ds) @ '' - '' @ nm,
            kind = Segment, order = pint ds\<rparr>) \<or>
   (\<exists>ds. all_digits ds \<and>
      z = \<lparr>zone_id = ''segment-'' @ str (pint ds), label = ''C'' @ str (pint ds),
            kind = Segment, order = pint ds\<rparr>)"
  unfolding getZoneInfo_def Let_def
  by (auto split: option.splits if_splits prod.splits
      dest: match_word_number_digits match_segment_digits match_segment_index_digits)

lemma strip_first:
  assumes "name \<noteq> []" "\<not> is_space (hd name)" "\<not> is_space (last name)"
  shows "sanitizeSegmentName (name @ '' First'') = name"
proof -
  have t1: "trim (name @ '' First'') = name @ '' First''"
    using assms by (intro trim_id) (simp_all add: is_space_def)
  have r: "rev (name @ '' First'') = ''tsriF '' @ rev name" by simp
  have "dropWhile is_space (rev name) = rev name"
    using assms by (cases "rev name") (simp_all add: hd_rev)
  then have "remove_first_suffix (name @ '' First'') = name"
    unfolding remove_first_suffix_def Let_def r
    by (simp add: is_space_def toLowerCase_def lower_char_def char_of_def bit_Suc_0_iff)
  then show ?thesis
    using assms by (simp add: sanitizeSegmentName_def t1 trim_id)
qed

lemma rooftop:
  assumes "pint ''3'' = n" "str n = ''3''"
  shows "getZoneInfo pint str ''C3 - Rooftop First'' =
     Some \<lparr>zone_id = ''segment-3'', label = ''C3 - Rooftop'', kind = Segment, order = n\<rparr>"
  by (simp add: zone_eval assms)

text \<open>
  Claim C7. Given that \<open>parseInt\<close> maps \<open>3\<close> to the number 3 and that this number prints as
  \<open>3\<close>, \<open>C3 - Rooftop First\<close> classifies to the segment zone 3 with label \<open>C3 - Rooftop\<close>;
  \<open>sanitizeSegmentName\<close> removes the suffix \<open>First\<close> after a name without outer white
  space; and the classifier, a total function, gives for every string either no zone or a
  descriptor of one of the four shapes (bonus, course, named segment, unnamed segment),
  whose order is \<open>parseInt\<close> of a captured digit string and whose id and label carry the
  text of that number.
\<close>

theorem zone_classification:
  "(pint3 ''3'' = (3 :: real) \<and> str3 3 = ''3'' \<longrightarrow>
      getZoneInfo pint3 str3 ''C3 - Rooftop First'' =
        Some \<lparr>zone_id = ''segment-3'', label = ''C3 - Rooftop'', kind = Segment, order = 3\<rparr>) \<and>
   (name \<noteq> [] \<and> \<not> is_space (hd name) \<and> \<not> is_space (last name) \<longrightarrow>
      sanitizeSegmentName (name @ '' First'') = name) \<and>
   (getZoneInfo pint str source = None \<or>
    (\<exists>ds. all_digits ds \<and> getZoneInfo pint str source =
       Some \<lparr>zone_id = ''bonus-'' @ str (pint ds), label = ''Bonus '' @ str (pint ds),
             kind = Bonus, order = pint ds\<rparr>) \<or>
    (\<exists>ds. all_digits ds \<and> getZoneInfo pint str source =
       Some \<lparr>zone_id = ''course-'' @ str (pint ds), label = ''Course '' @ str (pint ds),
             kind = Course, order = pint ds\<rparr>) \<or>
    (\<exists>ds nm. all_digits ds \<and> nm \<noteq> [] \<and> getZoneInfo pint str source =
       Some \<lparr>zone_id = ''segment-'' @ str (pint ds), label = ''C'' @ str (pint ds) @ '' - '' @ nm,
             kind = Segment, order = pint ds\<rparr>) \<or>
    (\<exists>ds. all_digits ds \<and> getZoneInfo pint str source =
       Some \<lparr>zone_id = ''segment-'' @ str (pint ds), label = ''C'' @ str (pint ds),
             kind = Segment, order = pint ds\<rparr>))"
proof (intro conjI impI)
  assume "pint3 ''3'' = (3 :: real) \<and> str3 3 = ''3''"
  then have "pint3 ''3'' = 3" "str3 3 = ''3''" by simp_all
  then show "getZoneInfo pint3 str3 ''C3 - Rooftop First'' =
     Some \<lparr>zone_id = ''segment-3'', label = ''C3 - Rooftop'', kind = Segment, order = 3\<rparr>"
    by (rule rooftop)
next
  assume "name \<noteq> [] \<and> \<not> is_space (hd name) \<and> \<not> is_space (last name)"
  then show "sanitizeSegmentName (name @ '' First'') = name"
    by (simp add: strip_first)
next
  show "getZoneInfo pint str source = None \<or>
    (\<exists>ds. all_digits ds \<and> getZoneInfo pint str source =
       Some \<lparr>zone_id = ''bonus-'' @ str (pint ds), label = ''Bonus '' @ str (pint ds),
             kind = Bonus, order = pint ds\<rparr>) \<or>
    (\<exists>ds. all_digits ds \<and> getZoneInfo pint str source =
       Some \<lparr>zone_id = ''course-'' @ str (pint ds), label = ''Course '' @ str (pint ds),
             kind = Course, order = pint ds\<rparr>) \<or>
    (\<exists>ds nm. all_digits ds \<and> nm \<noteq> [] \<and> getZoneInfo pint str source =
       Some \<lparr>zone_id = ''segment-'' @ str (pint ds), label = ''C'' @ str (pint ds) @ '' - '' @ nm,
             kind = Segment, order = pint ds\<rparr>) \<or>
    (\<exists>ds. all_digits ds \<and> getZoneInfo pint str source =
       Some \<lparr>zone_id = ''segment-'' @ str (pint ds), label = ''C'' @ str (pint ds),
             kind = Segment, order = pint ds\<rparr>)"
  proof (cases "getZoneInfo pint str source")
    case None
    then show ?thesis by simp
  next
    case (Some z)
    from zone_shapes [OF Some] show ?thesis unfolding Some by blast
  qed
qed

text \<open>
  The scenario with the sample number functions, a name with an inner white-space run, a
  bonus label and the whole-map label.
\<close>

theorem zone_classification_witness:
  "getZoneInfo sample_parse_int sample_number_text ''C3 - Rooftop First'' =
     Some \<lparr>zone_id = ''segment-3'', label = ''C3 - Rooftop'', kind = Segment, order = 3\<rparr> \<and>
   sanitizeSegmentName ''Upper  Ledge First'' = ''Upper  Ledge'' \<and>
   getZoneInfo sample_parse_int sample_number_text ''Bonus 2'' =
     Some \<lparr>zone_id = ''bonus-2'', label = ''Bonus 2'', kind = Bonus, order = 2\<rparr> \<and>
   getZoneInfo sample_parse_int sample_number_text ''Map'' = None"
proof -
  note z = zone_classification [of sample_parse_int sample_number_text "''Upper  Ledge''"
      sample_parse_int sample_number_text "''Map''"]
  have p: "sample_parse_int ''3'' = 3 \<and> sample_number_text 3 = ''3''"
    by (simp add: sample_parse_int_def sample_number_text_def nat_of_digits_def digit_value_def
        decimal.simps)
  have h: "''Upper  Ledge'' \<noteq> [] \<and> \<not> is_space (hd ''Upper  Ledge'') \<and>
           \<not> is_space (last ''Upper  Ledge'')"
    by (simp add: is_space_def)
  from z p have 1: "getZoneInfo sample_parse_int sample_number_text ''C3 - Rooftop First'' =
     Some \<lparr>zone_id = ''segment-3'', label = ''C3 - Rooftop'', kind = Segment, order = 3\<rparr>"
    by blast
  from z h have 2: "sanitizeSegmentName ''Upper  Ledge First'' = ''Upper  Ledge''" by simp
  have 3: "getZoneInfo sample_parse_int sample_number_text ''Bonus 2'' =
     Some \<lparr>zone_id = ''bonus-2'', label = ''Bonus 2'', kind = Bonus, order = 2\<rparr>"
    by (simp add: zone_eval sample_parse_int_def sample_number_text_def nat_of_digits_def
        digit_value_def decimal.simps)
  have 4: "getZoneInfo sample_parse_int sample_number_text ''Map'' = None"
    by (simp add: zone_eval)
  from 1 2 3 4 show ?thesis by simp
qed

end
